theory Spec2Isabelle
  imports
    Main
    "HOL-Library.Word"
    "HOL-Library.Char_ord"
    "HOL-Library.List_Lexorder"
    "HOL-Library.Sublist"
    "HOL-Library.Multiset"
begin

section \<open>Go strings\<close>

text \<open>
  A Go string is a sequence of bytes, here a \<^typ>\<open>string\<close> (a list of 8-bit
  characters). \<open>strings.TrimSpace\<close> removes leading and trailing white space
  "as defined by Unicode": the code points with the White_Space property, which in a
  byte string appear in their UTF-8 encodings. The list gives these encodings:
  U+0009..U+000D, U+0020, U+0085, U+00A0, U+1680, U+2000..U+200A, U+2028, U+2029,
  U+202F, U+205F and U+3000.
\<close>

definition unicodeSpaces :: "string list" where
  "unicodeSpaces =
    [[CHR 0x09], [CHR 0x0A], [CHR 0x0B], [CHR 0x0C], [CHR 0x0D], [CHR 0x20],
     [CHR 0xC2, CHR 0x85], [CHR 0xC2, CHR 0xA0],
     [CHR 0xE1, CHR 0x9A, CHR 0x80],
     [CHR 0xE2, CHR 0x80, CHR 0x80], [CHR 0xE2, CHR 0x80, CHR 0x81],
     [CHR 0xE2, CHR 0x80, CHR 0x82], [CHR 0xE2, CHR 0x80, CHR 0x83],
     [CHR 0xE2, CHR 0x80, CHR 0x84], [CHR 0xE2, CHR 0x80, CHR 0x85],
     [CHR 0xE2, CHR 0x80, CHR 0x86], [CHR 0xE2, CHR 0x80, CHR 0x87],
     [CHR 0xE2, CHR 0x80, CHR 0x88], [CHR 0xE2, CHR 0x80, CHR 0x89],
     [CHR 0xE2, CHR 0x80, CHR 0x8A],
     [CHR 0xE2, CHR 0x80, CHR 0xA8], [CHR 0xE2, CHR 0x80, CHR 0xA9],
     [CHR 0xE2, CHR 0x80, CHR 0xAF],
     [CHR 0xE2, CHR 0x81, CHR 0x9F],
     [CHR 0xE3, CHR 0x80, CHR 0x80]]"

text \<open>
  \<open>leading pats s\<close> is the width in bytes of the first pattern of \<open>pats\<close> that
  \<open>s\<close> starts with, and 0 when it starts with none: with \<open>unicodeSpaces\<close> it is
  the size of the white-space rune that \<open>utf8.DecodeRuneInString\<close> finds at the
  start of \<open>s\<close>.
\<close>

fun leading :: "string list \<Rightarrow> string \<Rightarrow> nat" where
  "leading [] s = 0"
| "leading (p # ps) s = (if prefix p s then length p else leading ps s)"

text \<open>\<open>strings.TrimLeftFunc\<close>: drop runes matching the patterns while there is one in front.\<close>

function strip :: "string list \<Rightarrow> string \<Rightarrow> string" where
  "strip pats s = (if leading pats s = 0 then s else strip pats (drop (leading pats s) s))"
  by pat_completeness auto
termination
proof (relation "measure (\<lambda>(pats, s). length s)")
  show "wf (measure (\<lambda>(pats, s). length s))" by simp
next
  fix pats :: "string list" and s :: string
  assume "leading pats s \<noteq> 0"
  moreover have "leading pats s \<le> length s"
    by (induction pats) (auto simp: prefix_length_le)
  ultimately show "((pats, drop (leading pats s) s), (pats, s)) \<in> measure (\<lambda>(pats, s). length s)"
    by simp
qed

declare strip.simps [simp del]

definition TrimLeftSpace :: "string \<Rightarrow> string" where
  "TrimLeftSpace s = strip unicodeSpaces s"

text \<open>
  \<open>strings.TrimRightFunc\<close> scans backwards with \<open>utf8.DecodeLastRuneInString\<close>:
  it drops a white-space encoding while the string ends with one. That is the forward
  scan on the reversed string with the reversed encodings.
\<close>

definition TrimRightSpace :: "string \<Rightarrow> string" where
  "TrimRightSpace s = rev (strip (map rev unicodeSpaces) (rev s))"

text \<open>\<open>strings.TrimSpace(s)\<close> is \<open>TrimRightFunc(TrimLeftFunc(s, unicode.IsSpace), unicode.IsSpace)\<close>.\<close>

definition TrimSpace :: "string \<Rightarrow> string" where
  "TrimSpace s = TrimRightSpace (TrimLeftSpace s)"

text \<open>
  \<open>strings.Cut(s, sep)\<close> with a one-byte separator: the text before and after the first
  \<open>sep\<close> and \<open>True\<close>, or \<open>(s, "", False)\<close> when \<open>sep\<close> does not occur in \<open>s\<close>.
\<close>

definition Cut :: "string \<Rightarrow> char \<Rightarrow> string \<times> string \<times> bool" where
  "Cut s sep =
     (if sep \<in> set s
      then (takeWhile (\<lambda>c. c \<noteq> sep) s, tl (dropWhile (\<lambda>c. c \<noteq> sep) s), True)
      else (s, [], False))"

text \<open>\<open>strings.Contains(s, sep)\<close> with a one-byte separator.\<close>

definition Contains :: "string \<Rightarrow> char \<Rightarrow> bool" where
  "Contains s sep = (sep \<in> set s)"

section \<open>Errors\<close>

text \<open>
  Go errors as values. The first five are the errors \<open>validateEmail\<close> builds with
  \<open>fmt.Errorf\<close>; \<open>InvalidEmailInCSV\<close> wraps one of them (\<open>%w\<close>);
  \<open>InsufficientColumns\<close> carries the two numbers of its message; \<open>ErrFieldCount\<close>
  is \<open>csv.ErrFieldCount\<close> ("wrong number of fields"), \<open>ParseError\<close> any other error
  of the CSV reader or of the file read under it, \<open>EOF\<close> is \<open>io.EOF\<close>;
  \<open>OpenError\<close> and \<open>CreateError\<close> are the failures of \<open>os.Open\<close> and \<open>os.Create\<close>.

  The values are error kinds. The \<open>*csv.ParseError\<close> of the reader also carries the line
  and column where it stopped, and the errors of the operating system the path and the
  cause; these are not modelled, and two errors that differ only there are the same value.
\<close>

datatype error =
    EmailEmpty              \<comment> \<open>"email address is empty"\<close>
  | MissingSeparator        \<comment> \<open>"invalid email format: missing '@' separator"\<close>
  | EmptyLocalPart          \<comment> \<open>"invalid email format: empty local part"\<close>
  | EmptyDomain             \<comment> \<open>"invalid email format: empty domain"\<close>
  | MultipleSeparators      \<comment> \<open>"invalid email format: multiple '@' symbols"\<close>
  | InvalidEmailInCSV error \<comment> \<open>"invalid email in CSV: %w"\<close>
  | InsufficientColumns nat nat
      \<comment> \<open>"invalid CSV format: expected at least %d columns, got %d"\<close>
  | ErrFieldCount
  | ParseError
  | EOF
  | OpenError
  | NilData                 \<comment> \<open>"provided data is empty (nil)"\<close>
  | CreateError             \<comment> \<open>"failed to create output file: %w"\<close>

section \<open>validateEmail\<close>

text \<open>
  The function returns the pair \<open>(domain, err)\<close> of the Go source; \<open>None\<close> is the
  \<open>nil\<close> error.
\<close>

definition validateEmail :: "string \<Rightarrow> string \<times> error option" where
  "validateEmail email0 =
     (let email = TrimSpace email0 in
      if email = [] then ([], Some EmailEmpty)
      else
        (case Cut email (CHR ''@'') of
           (local, dom0, found) \<Rightarrow>
             if \<not> found then ([], Some MissingSeparator)
             else if TrimSpace local = [] then ([], Some EmptyLocalPart)
             else
               (let dom = TrimSpace dom0 in
                if dom = [] then ([], Some EmptyDomain)
                else if Contains dom (CHR ''@'') then ([], Some MultipleSeparators)
                else (dom, None))))"

section \<open>The CSV reader\<close>

text \<open>
  \<open>encoding/csv\<close> is a library: its lexing of bytes into fields is not modelled. A file
  is the sequence of records that lexing finds in it: \<open>Record fs\<close> for a record with
  the fields \<open>fs\<close>, \<open>Malformed fs\<close> for one where lexing or the read under it fails
  (a bare or unterminated quote, an I/O error) after the fields \<open>fs\<close>.

  What the reader adds to lexing is modelled as the library documents it:
  \<open>csv.NewReader\<close> leaves \<open>FieldsPerRecord\<close> at 0, and then "Read sets it to the
  number of fields in the first record, so that future records must have the same field
  count"; a record with another count is returned with \<open>csv.ErrFieldCount\<close>.
\<close>

datatype line = Record "string list" | Malformed "string list"

record Reader =
  FieldsPerRecord :: int
  input :: "line list"

definition NewReader :: "line list \<Rightarrow> Reader" where
  "NewReader file = \<lparr>FieldsPerRecord = 0, input = file\<rparr>"

definition Read :: "Reader \<Rightarrow> (string list \<times> error option) \<times> Reader" where
  "Read r =
     (case input r of
        [] \<Rightarrow> (([], Some EOF), r)
      | Record fs # rest \<Rightarrow>
          if FieldsPerRecord r > 0 then
            (if int (length fs) \<noteq> FieldsPerRecord r
             then ((fs, Some ErrFieldCount), r\<lparr>input := rest\<rparr>)
             else ((fs, None), r\<lparr>input := rest\<rparr>))
          else if FieldsPerRecord r = 0
            then ((fs, None), r\<lparr>FieldsPerRecord := int (length fs), input := rest\<rparr>)
            else ((fs, None), r\<lparr>input := rest\<rparr>)
      | Malformed fs # rest \<Rightarrow>
          if FieldsPerRecord r = 0
          then ((fs, Some ParseError), r\<lparr>FieldsPerRecord := int (length fs), input := rest\<rparr>)
          else ((fs, Some ParseError), r\<lparr>input := rest\<rparr>))"

section \<open>Logging\<close>

text \<open>
  \<open>slog\<close> writes to the process-wide default logger. \<open>main.setupLogger\<close> sets its
  level: with \<open>-verbose\<close> Info records are written, without it only Error records.
  The log is the list of records written, threaded through the functions.
\<close>

datatype logValue = Num nat | Str string

datatype logRecord =
    ErrorRecord string error
  | InfoRecord string "(string \<times> logValue) list"

definition slogInfo ::
  "bool \<Rightarrow> logRecord list \<Rightarrow> string \<Rightarrow> (string \<times> logValue) list \<Rightarrow> logRecord list" where
  "slogInfo verbose log msg attrs = (if verbose then log @ [InfoRecord msg attrs] else log)"

definition slogError :: "logRecord list \<Rightarrow> string \<Rightarrow> error \<Rightarrow> logRecord list" where
  "slogError log msg e = log @ [ErrorRecord msg e]"

section \<open>The importer\<close>

definition emailColumnIndex :: nat where
  "emailColumnIndex = 2"

record DomainData =
  Domain :: string
  CustomerQuantity :: "64 word"

record CustomerImporter =
  path :: string

definition NewCustomerImporter :: "string \<Rightarrow> CustomerImporter" where
  "NewCustomerImporter filePath = \<lparr>path = filePath\<rparr>"

text \<open>
  The Go map \<open>map[string]uint64\<close> as an association list with one entry per key.
  Reading a key that is absent gives the zero value; \<open>data[domain] += 1\<close> reads,
  adds 1 in \<open>uint64\<close> (it wraps) and stores.
\<close>

type_synonym domainMap = "(string \<times> 64 word) list"

definition mapLoad :: "domainMap \<Rightarrow> string \<Rightarrow> 64 word" where
  "mapLoad m k = (case map_of m k of None \<Rightarrow> 0 | Some v \<Rightarrow> v)"

fun mapStore :: "domainMap \<Rightarrow> string \<Rightarrow> 64 word \<Rightarrow> domainMap" where
  "mapStore [] k v = [(k, v)]"
| "mapStore ((k', v') # m) k v =
     (if k' = k then (k, v) # m else (k', v') # mapStore m k v)"

definition mapIncrement :: "domainMap \<Rightarrow> string \<Rightarrow> domainMap" where
  "mapIncrement m k = mapStore m k (mapLoad m k + 1)"

text \<open>
  \<open>for k, v := range data\<close> visits every entry once, in an order Go leaves unspecified
  and randomises. The order is drawn from \<open>picks\<close>: each number selects the next entry
  among those not yet visited.
\<close>

fun rangeMap :: "nat list \<Rightarrow> 'a list \<Rightarrow> 'a list" where
  "rangeMap ps [] = []"
| "rangeMap [] xs = xs"
| "rangeMap (p # ps) xs =
     (let i = p mod length xs in xs ! i # rangeMap ps (take i xs @ drop (Suc i) xs))"

text \<open>\<open>cmp.Compare\<close> on strings: byte-wise lexicographic order.\<close>

definition Compare :: "string \<Rightarrow> string \<Rightarrow> int" where
  "Compare a b = (if a < b then - 1 else if b < a then 1 else 0)"

text \<open>
  \<open>slices.SortFunc\<close> sorts by a comparison function and is not stable. It is modelled
  by insertion sort; on a list whose keys are pairwise distinct, as the entries of a map
  are, every sorting algorithm returns the same list (\<open>SortFunc_unique\<close> below).
\<close>

fun insertFunc :: "('a \<Rightarrow> 'a \<Rightarrow> int) \<Rightarrow> 'a \<Rightarrow> 'a list \<Rightarrow> 'a list" where
  "insertFunc cmp x [] = [x]"
| "insertFunc cmp x (y # ys) =
     (if cmp x y \<le> 0 then x # y # ys else y # insertFunc cmp x ys)"

definition SortFunc :: "('a \<Rightarrow> 'a \<Rightarrow> int) \<Rightarrow> 'a list \<Rightarrow> 'a list" where
  "SortFunc cmp xs = foldr (insertFunc cmp) xs []"

text \<open>The code after the loop: log, copy the map into a slice, sort it, return it.\<close>

definition finish ::
  "nat list \<Rightarrow> bool \<Rightarrow> domainMap \<Rightarrow> 64 word \<Rightarrow> logRecord list
     \<Rightarrow> (DomainData list option \<times> error option) \<times> logRecord list" where
  "finish picks verbose data rowCount log =
     (let log = slogInfo verbose log ''aggregation complete''
                  [(''total_rows'', Num (unat rowCount)), (''unique_domains'', Num (length data))];
          domainData = map (\<lambda>(k, v). \<lparr>Domain = k, CustomerQuantity = v\<rparr>) (rangeMap picks data);
          domainData = SortFunc (\<lambda>l r. Compare (Domain l) (Domain r)) domainData
      in ((Some domainData, None), log))"

text \<open>
  The read loop. Each path that leaves the function returns the pair \<open>(data, err)\<close>
  of the Go source, \<open>None\<close> for \<open>nil\<close>, with the log written so far.
\<close>

function importRows ::
  "nat list \<Rightarrow> bool \<Rightarrow> Reader \<Rightarrow> domainMap \<Rightarrow> 64 word \<Rightarrow> logRecord list
     \<Rightarrow> (DomainData list option \<times> error option) \<times> logRecord list" where
  "importRows picks verbose csvReader data rowCount log =
     (let line = fst (fst (Read csvReader));
          readErr = snd (fst (Read csvReader));
          csvReader' = snd (Read csvReader)
      in
      if readErr = Some EOF then finish picks verbose data rowCount log
      else if readErr \<noteq> None then ((None, readErr), log)
      else
        (let rowCount = rowCount + 1;
             log = (if rowCount mod 10000 = 0
                    then slogInfo verbose log ''processing''
                           [(''rows'', Num (unat rowCount)), (''unique_domains'', Num (length data))]
                    else log)
         in
         if length line \<le> emailColumnIndex
         then ((None, Some (InsufficientColumns (emailColumnIndex + 1) (length line))), log)
         else
           (case validateEmail (line ! emailColumnIndex) of
              (domain, Some err) \<Rightarrow> ((None, Some (InvalidEmailInCSV err)), log)
            | (domain, None) \<Rightarrow>
                importRows picks verbose csvReader' (mapIncrement data domain) rowCount log)))"
  by pat_completeness auto
termination
proof (relation "measure (\<lambda>(picks, verbose, r, data, rowCount, log). length (input r))")
  show "wf (measure (\<lambda>(picks, verbose, r, data, rowCount, log). length (input r)))" by simp
next
  fix picks :: "nat list" and verbose :: bool and csvReader :: Reader and data :: domainMap
    and rowCount :: "64 word" and log :: "logRecord list"
    and line readErr csvReader'
  assume "readErr = snd (fst (Read csvReader))" and "csvReader' = snd (Read csvReader)"
    and "readErr \<noteq> Some EOF" and "\<not> readErr \<noteq> None"
  then have "length (input csvReader') < length (input csvReader)"
    by (auto simp: Read_def split: list.splits line.splits if_splits)
  then show "((picks, verbose, csvReader', mapIncrement data domain, rowCount', log'), picks, verbose,
      csvReader, data, rowCount, log) \<in> measure (\<lambda>(picks, verbose, r, data, rowCount, log). length (input r))"
    for domain rowCount' log'
    by simp
qed

declare importRows.simps [simp del]

text \<open>
  The log once a row has been counted: every 10,000th row adds a progress record. The
  loop above writes this out inline, as the source does; the name serves the proofs.
\<close>

definition afterRow :: "bool \<Rightarrow> domainMap \<Rightarrow> 64 word \<Rightarrow> logRecord list \<Rightarrow> logRecord list" where
  "afterRow verbose data rc log =
     (if (rc + 1) mod 10000 = 0
      then slogInfo verbose log ''processing''
             [(''rows'', Num (unat (rc + 1))), (''unique_domains'', Num (length data))]
      else log)"

text \<open>
  The file system the importer reads: a path that can be opened maps to the file's
  records. \<open>defer file.Close()\<close> has no effect on what is returned and is left out.
\<close>

definition ImportDomainData ::
  "nat list \<Rightarrow> bool \<Rightarrow> (string \<rightharpoonup> line list) \<Rightarrow> CustomerImporter
     \<Rightarrow> (DomainData list option \<times> error option) \<times> logRecord list" where
  "ImportDomainData picks verbose fs ci =
     (case fs (path ci) of
        None \<Rightarrow> ((None, Some OpenError), [])
      | Some file \<Rightarrow>
          (let csvReader = NewReader file;
               data = [];
               readErr = snd (fst (Read csvReader));
               csvReader = snd (Read csvReader)
           in
           case readErr of
             Some e \<Rightarrow> ((None, Some e), slogError [] ''failed to read CSV header'' e)
           | None \<Rightarrow> importRows picks verbose csvReader data 0 []))"

section \<open>The exporter\<close>

text \<open>\<open>strconv.FormatUint(v, 10)\<close>: the decimal digits of \<open>v\<close>.\<close>

function decimal :: "nat \<Rightarrow> string" where
  "decimal n =
     (if n < 10 then [char_of (48 + n)] else decimal (n div 10) @ [char_of (48 + n mod 10)])"
  by pat_completeness auto
termination
  by (relation "measure (\<lambda>n. n)") auto

declare decimal.simps [simp del]

definition FormatUint :: "64 word \<Rightarrow> string" where
  "FormatUint v = decimal (unat v)"

text \<open>
  \<open>csv.Writer.Write\<close> with the default settings (comma, no CRLF): the fields joined
  by commas and ended by a newline; a field is wrapped in double quotes, its own double
  quotes doubled, when it is \<open>\\.\<close>, contains a comma, a quote or a line break, or
  starts with white space.
\<close>

definition fieldNeedsQuotes :: "string \<Rightarrow> bool" where
  "fieldNeedsQuotes field =
     (if field = [] then False
      else if field = [CHR 0x5C, CHR ''.''] then True
      else if (\<exists>c \<in> set field. c = CHR 0x0A \<or> c = CHR 0x0D \<or> c = CHR 0x22 \<or> c = CHR '','')
        then True
      else leading unicodeSpaces field \<noteq> 0)"

fun escapeQuotes :: "string \<Rightarrow> string" where
  "escapeQuotes [] = []"
| "escapeQuotes (c # cs) =
     (if c = CHR 0x22 then CHR 0x22 # CHR 0x22 # escapeQuotes cs else c # escapeQuotes cs)"

definition writeField :: "string \<Rightarrow> string" where
  "writeField field =
     (if fieldNeedsQuotes field then CHR 0x22 # escapeQuotes field @ [CHR 0x22] else field)"

fun joinFields :: "string list \<Rightarrow> string" where
  "joinFields [] = []"
| "joinFields [f] = writeField f"
| "joinFields (f # fs) = writeField f @ CHR '','' # joinFields fs"

definition csvWrite :: "string list \<Rightarrow> string" where
  "csvWrite row = joinFields row @ [CHR 0x0A]"

text \<open>
  \<open>exportCsv\<close>: the bytes written to \<open>output\<close>, the header and one row per entry in
  the order given. Writes to the created file are taken to succeed.
\<close>

definition exportCsv :: "DomainData list \<Rightarrow> string" where
  "exportCsv data =
     csvWrite [''domain'', ''number_of_customers'']
       @ concat (map (\<lambda>v. csvWrite [Domain v, FormatUint (CustomerQuantity v)]) data)"

record CustomerExporter =
  outputPath :: string

definition NewCustomerExporter :: "string \<Rightarrow> CustomerExporter" where
  "NewCustomerExporter out = \<lparr>outputPath = out\<rparr>"

text \<open>
  The file system the exporter writes: the contents of the files that exist, and the
  paths at which \<open>os.Create\<close> succeeds. \<open>os.Create\<close> creates the file or truncates it.
\<close>

record fileSystem =
  files :: "string \<rightharpoonup> string"
  creatable :: "string \<Rightarrow> bool"

definition osCreate :: "fileSystem \<Rightarrow> string \<Rightarrow> error + fileSystem" where
  "osCreate fs name =
     (if creatable fs name then Inr (fs\<lparr>files := (files fs)(name \<mapsto> [])\<rparr>) else Inl CreateError)"

text \<open>
  \<open>ExportData\<close> returns its error, the file system it leaves and the log it wrote.
  The parameter \<open>data\<close> is a Go slice: \<open>None\<close> is the \<open>nil\<close> slice.
\<close>

definition ExportData ::
  "bool \<Rightarrow> fileSystem \<Rightarrow> CustomerExporter \<Rightarrow> DomainData list option
     \<Rightarrow> error option \<times> fileSystem \<times> logRecord list" where
  "ExportData verbose fs ex data =
     (case data of
        None \<Rightarrow> (Some NilData, fs, [])
      | Some rows \<Rightarrow>
          (let log = slogInfo verbose [] ''starting export''
                       [(''file'', Str (outputPath ex)), (''records'', Num (length rows))]
           in
           case osCreate fs (outputPath ex) of
             Inl err \<Rightarrow> (Some err, fs, log)
           | Inr fs' \<Rightarrow>
               (None,
                fs'\<lparr>files := (files fs')(outputPath ex \<mapsto> exportCsv rows)\<rparr>,
                slogInfo verbose log ''export written successfully''
                  [(''file'', Str (outputPath ex))])))"

section \<open>Well-formed rows and example data\<close>

text \<open>
  A data row is valid for a header of \<open>n\<close> fields when the reader and the loop accept
  it: it lexes, has \<open>n\<close> fields, has a field at \<open>emailColumnIndex\<close>, and
  \<open>validateEmail\<close> accepts that field.
\<close>

definition validRow :: "nat \<Rightarrow> line \<Rightarrow> bool" where
  "validRow n l =
     (case l of
        Record fs \<Rightarrow>
          length fs = n \<and> emailColumnIndex < length fs
            \<and> snd (validateEmail (fs ! emailColumnIndex)) = None
      | Malformed fs \<Rightarrow> False)"

text \<open>The five-column layout and the three rows of the concrete scenario.\<close>

definition standardHeader :: "string list" where
  "standardHeader = [''first_name'', ''last_name'', ''email'', ''gender'', ''ip_address'']"

definition janeRow :: line where
  "janeRow = Record [''Jane'', ''Roe'', ''jane@example.com'', ''F'', ''1.1.1.1'']"

definition bobRow :: line where
  "bobRow = Record [''Bob'', ''Lee'', ''bob@example.com'', ''M'', ''2.2.2.2'']"

definition annRow :: line where
  "annRow = Record [''Ann'', ''Fox'', ''ann@acme.io'', ''F'', ''3.3.3.3'']"

definition customers :: CustomerImporter where
  "customers = NewCustomerImporter ''customers.csv''"

definition exampleFiles :: "string \<rightharpoonup> line list" where
  "exampleFiles = [''customers.csv'' \<mapsto> [Record standardHeader, janeRow, bobRow, annRow]]"

definition exampleResult :: "DomainData list" where
  "exampleResult = [\<lparr>Domain = ''acme.io'', CustomerQuantity = 1\<rparr>,
                    \<lparr>Domain = ''example.com'', CustomerQuantity = 2\<rparr>]"

definition exampleDisk :: fileSystem where
  "exampleDisk = \<lparr>files = [''out.csv'' \<mapsto> ''kept''], creatable = (\<lambda>name. True)\<rparr>"

section \<open>White space and trimming\<close>

lemma spaces_nonempty: "[] \<notin> set unicodeSpaces"
  by (simp add: unicodeSpaces_def)

lemma spaces_no_at: "\<forall>p \<in> set unicodeSpaces. CHR ''@'' \<notin> set p"
  by (simp add: unicodeSpaces_def)

lemma spaces_prefix_free: "\<forall>p \<in> set unicodeSpaces. \<forall>q \<in> set unicodeSpaces. prefix p q \<longrightarrow> p = q"
  by (simp add: unicodeSpaces_def)

lemma spaces_suffix_free: "\<forall>p \<in> set unicodeSpaces. \<forall>q \<in> set unicodeSpaces. suffix p q \<longrightarrow> p = q"
  by (simp add: unicodeSpaces_def suffix_to_prefix)

lemma spaces_no_overlap:
  "\<forall>p \<in> set unicodeSpaces. \<forall>q \<in> set unicodeSpaces. \<forall>u \<in> set (suffixes p).
     u \<noteq> [] \<and> prefix u q \<longrightarrow> u = p \<and> p = q"
  by (simp add: unicodeSpaces_def)

lemma leading_le: "leading pats s \<le> length s"
  by (induction pats) (auto simp: prefix_length_le)

lemma leading_match:
  "leading pats s \<noteq> 0 \<Longrightarrow> \<exists>p \<in> set pats. prefix p s \<and> leading pats s = length p"
  by (induction pats) (auto split: if_splits)

lemma leading_zero:
  "[] \<notin> set pats \<Longrightarrow> leading pats s = 0 \<Longrightarrow> p \<in> set pats \<Longrightarrow> \<not> prefix p s"
  by (induction pats) (auto split: if_splits)

lemma leading_zeroI:
  "(\<And>p. p \<in> set pats \<Longrightarrow> \<not> prefix p s) \<Longrightarrow> leading pats s = 0"
  by (induction pats) auto

lemma leading_pattern:
  assumes ne: "[] \<notin> set pats"
    and pf: "\<forall>p \<in> set pats. \<forall>q \<in> set pats. prefix p q \<longrightarrow> p = q"
    and p: "p \<in> set pats"
  shows "leading pats (p @ x) = length p"
proof -
  have "leading pats (p @ x) \<noteq> 0"
    using leading_zero [OF ne _ p, of "p @ x"] by auto
  then obtain q where q: "q \<in> set pats" "prefix q (p @ x)" "leading pats (p @ x) = length q"
    using leading_match by blast
  have "prefix p (p @ x)" by simp
  with q(2) have "prefix p q \<or> prefix q p"
    using prefix_same_cases by blast
  with pf p q(1) have "p = q" by blast
  with q(3) show ?thesis by simp
qed

lemma strip_pattern:
  assumes "[] \<notin> set pats"
    and "\<forall>p \<in> set pats. \<forall>q \<in> set pats. prefix p q \<longrightarrow> p = q"
    and "p \<in> set pats"
  shows "strip pats (p @ x) = strip pats x"
proof -
  have l: "leading pats (p @ x) = length p" using assms by (rule leading_pattern)
  moreover have "p \<noteq> []" using assms by auto
  ultimately show ?thesis by (subst strip.simps) simp
qed

lemma strip_none: "(\<And>p. p \<in> set pats \<Longrightarrow> \<not> prefix p s) \<Longrightarrow> strip pats s = s"
  by (subst strip.simps) (simp add: leading_zeroI)

lemma strip_Nil [simp]: "strip pats [] = []"
  using leading_le [of pats "[]"] by (subst strip.simps) simp

lemma strip_leading: "leading pats (strip pats s) = 0"
  by (induction pats s rule: strip.induct) (subst strip.simps, simp)

lemma strip_idem: "strip pats (strip pats s) = strip pats s"
  by (subst strip.simps) (simp add: strip_leading)

lemma prefix_append_sep:
  "c \<notin> set p \<Longrightarrow> prefix p (l @ c # d) \<longleftrightarrow> prefix p l"
  by (auto simp: prefix_append prefix_Cons)

lemma leading_append_sep:
  "\<forall>p \<in> set pats. c \<notin> set p \<Longrightarrow> leading pats (l @ c # d) = leading pats l"
  by (induction pats) (auto simp: prefix_append_sep)

lemma strip_append_sep:
  "\<forall>p \<in> set pats. c \<notin> set p \<Longrightarrow> strip pats (l @ c # d) = strip pats l @ c # d"
proof (induction pats l rule: strip.induct)
  case (1 pats l)
  have eq: "leading pats (l @ c # d) = leading pats l"
    using "1.prems" by (rule leading_append_sep)
  show ?case
  proof (cases "leading pats l = 0")
    case True
    then have "strip pats (l @ c # d) = l @ c # d" "strip pats l = l"
      using eq by (subst strip.simps, simp)+
    then show ?thesis by simp
  next
    case False
    have le: "leading pats l \<le> length l" by (rule leading_le)
    have "strip pats (l @ c # d) = strip pats (drop (leading pats l) (l @ c # d))"
      using False eq by (subst strip.simps) simp
    also have "\<dots> = strip pats (drop (leading pats l) l @ c # d)"
      using le by simp
    also have "\<dots> = strip pats (drop (leading pats l) l) @ c # d"
      using "1.IH" "1.prems" False by simp
    also have "strip pats (drop (leading pats l) l) = strip pats l"
      using False by (subst (2) strip.simps) simp
    finally show ?thesis .
  qed
qed

lemma set_strip: "set (strip pats s) \<subseteq> set s"
proof (induction pats s rule: strip.induct)
  case (1 pats s)
  show ?case
  proof (cases "leading pats s = 0")
    case True
    then show ?thesis by (subst strip.simps) simp
  next
    case False
    with 1 have "set (strip pats (drop (leading pats s) s)) \<subseteq> set (drop (leading pats s) s)" by simp
    also have "\<dots> \<subseteq> set s" by (rule set_drop_subset)
    finally show ?thesis using False by (subst strip.simps) simp
  qed
qed

lemma strip_keeps:
  assumes "\<forall>p \<in> set pats. c \<notin> set p" and "c \<in> set s"
  shows "c \<in> set (strip pats s)"
proof -
  from assms(2) obtain l d where "s = l @ c # d" by (auto dest: split_list)
  then show ?thesis using strip_append_sep [OF assms(1), of l d] by simp
qed

lemma rev_spaces_nonempty: "[] \<notin> set (map rev unicodeSpaces)"
  using spaces_nonempty by auto

lemma rev_spaces_prefix_free:
  "\<forall>p \<in> set (map rev unicodeSpaces). \<forall>q \<in> set (map rev unicodeSpaces). prefix p q \<longrightarrow> p = q"
  using spaces_suffix_free by (auto simp: suffix_to_prefix)

lemma rev_spaces_no_at: "\<forall>p \<in> set (map rev unicodeSpaces). CHR ''@'' \<notin> set p"
  using spaces_no_at by auto

lemma TrimLeftSpace_Nil [simp]: "TrimLeftSpace [] = []"
  by (simp add: TrimLeftSpace_def)

lemma TrimRightSpace_Nil [simp]: "TrimRightSpace [] = []"
  by (simp add: TrimRightSpace_def)

lemma TrimLeftSpace_space:
  "p \<in> set unicodeSpaces \<Longrightarrow> TrimLeftSpace (p @ x) = TrimLeftSpace x"
  unfolding TrimLeftSpace_def
  by (rule strip_pattern [OF spaces_nonempty spaces_prefix_free])

lemma TrimRightSpace_space:
  "q \<in> set unicodeSpaces \<Longrightarrow> TrimRightSpace (y @ q) = TrimRightSpace y"
  unfolding TrimRightSpace_def
  using strip_pattern [OF rev_spaces_nonempty rev_spaces_prefix_free, of "rev q" "rev y"]
  by simp

lemma TrimLeftSpace_none:
  "(\<And>p. p \<in> set unicodeSpaces \<Longrightarrow> \<not> prefix p s) \<Longrightarrow> TrimLeftSpace s = s"
  unfolding TrimLeftSpace_def by (rule strip_none)

lemma TrimRightSpace_none:
  assumes "\<And>q. q \<in> set unicodeSpaces \<Longrightarrow> \<not> suffix q s"
  shows "TrimRightSpace s = s"
proof -
  have "strip (map rev unicodeSpaces) (rev s) = rev s"
    using assms by (intro strip_none) (auto simp: suffix_to_prefix)
  then show ?thesis by (simp add: TrimRightSpace_def)
qed

lemma TrimLeftSpace_idem: "TrimLeftSpace (TrimLeftSpace s) = TrimLeftSpace s"
  by (simp add: TrimLeftSpace_def strip_idem)

lemma TrimRightSpace_idem: "TrimRightSpace (TrimRightSpace s) = TrimRightSpace s"
  by (simp add: TrimRightSpace_def strip_idem)

lemma TrimLeftSpace_at:
  "TrimLeftSpace (l @ CHR ''@'' # d) = TrimLeftSpace l @ CHR ''@'' # d"
  unfolding TrimLeftSpace_def by (rule strip_append_sep [OF spaces_no_at])

lemma TrimRightSpace_at:
  "TrimRightSpace (l @ CHR ''@'' # d) = l @ CHR ''@'' # TrimRightSpace d"
  unfolding TrimRightSpace_def
  using strip_append_sep [OF rev_spaces_no_at, of "rev d" "rev l"] by simp

lemma at_TrimLeftSpace: "CHR ''@'' \<in> set (TrimLeftSpace s) \<longleftrightarrow> CHR ''@'' \<in> set s"
  unfolding TrimLeftSpace_def
  using set_strip [of unicodeSpaces s] strip_keeps [OF spaces_no_at, of s] by auto

lemma at_TrimRightSpace: "CHR ''@'' \<in> set (TrimRightSpace s) \<longleftrightarrow> CHR ''@'' \<in> set s"
  unfolding TrimRightSpace_def
  using set_strip [of "map rev unicodeSpaces" "rev s"] strip_keeps [OF rev_spaces_no_at, of "rev s"]
  by auto

lemma at_TrimSpace: "CHR ''@'' \<in> set (TrimSpace s) \<longleftrightarrow> CHR ''@'' \<in> set s"
  by (simp add: TrimSpace_def at_TrimRightSpace at_TrimLeftSpace)

text \<open>A white-space encoding in front and one at the end of the same string either
  coincide or do not overlap.\<close>

lemma spaces_apart:
  assumes p: "p \<in> set unicodeSpaces" and q: "q \<in> set unicodeSpaces"
    and eq: "p @ x = y @ q"
  shows "(x = [] \<and> y = [] \<and> p = q) \<or> (\<exists>m. x = m @ q \<and> y = p @ m)"
proof -
  from eq consider us where "p = y @ us" "us @ x = q" | us where "p @ us = y" "x = us @ q"
    by (auto simp: append_eq_append_conv2)
  then show ?thesis
  proof cases
    case 1
    show ?thesis
    proof (cases "us = []")
      case True
      with 1 show ?thesis by auto
    next
      case False
      have "us \<in> set (suffixes p)" using 1 by (auto simp: in_set_suffixes suffix_def)
      moreover have "prefix us q" using 1 by auto
      ultimately have "us = p \<and> p = q" using spaces_no_overlap p q False by blast
      with 1 show ?thesis by auto
    qed
  next
    case 2
    then show ?thesis by auto
  qed
qed

lemma Trim_commute: "TrimLeftSpace (TrimRightSpace s) = TrimRightSpace (TrimLeftSpace s)"
proof (induction s rule: length_induct)
  case (1 s)
  note IH = 1 [rule_format]
  show ?case
  proof (cases "\<exists>p \<in> set unicodeSpaces. prefix p s")
    case True
    then obtain p x where p: "p \<in> set unicodeSpaces" and s: "s = p @ x"
      by (auto simp: prefix_def)
    have pne: "p \<noteq> []" using p spaces_nonempty by auto
    show ?thesis
    proof (cases "\<exists>q \<in> set unicodeSpaces. suffix q s")
      case True
      then obtain q y where q: "q \<in> set unicodeSpaces" and s': "s = y @ q"
        by (auto simp: suffix_def)
      have qne: "q \<noteq> []" using q spaces_nonempty by auto
      have "p @ x = y @ q" using s s' by simp
      from spaces_apart [OF p q this]
      consider "x = []" "y = []" "p = q" | m where "x = m @ q" "y = p @ m" by blast
      then show ?thesis
      proof cases
        case 1
        have "TrimRightSpace s = []" using TrimRightSpace_space [OF q, of "[]"] s' 1 by simp
        moreover have "TrimLeftSpace s = []" using TrimLeftSpace_space [OF p, of "[]"] s 1 by simp
        ultimately show ?thesis by simp
      next
        case 2
        have R: "TrimRightSpace s = TrimRightSpace (p @ m)"
          using TrimRightSpace_space [OF q, of "p @ m"] s' 2 by simp
        have L: "TrimLeftSpace s = TrimLeftSpace (m @ q)"
          using TrimLeftSpace_space [OF p, of "m @ q"] s 2 by simp
        have "TrimLeftSpace (TrimRightSpace (p @ m)) = TrimRightSpace (TrimLeftSpace (p @ m))"
          using qne s' 2 by (intro IH) simp
        also have "\<dots> = TrimRightSpace (TrimLeftSpace m)"
          using TrimLeftSpace_space [OF p] by simp
        also have "\<dots> = TrimLeftSpace (TrimRightSpace m)"
          using pne qne s' 2 by (intro IH [symmetric]) simp
        also have "\<dots> = TrimLeftSpace (TrimRightSpace (m @ q))"
          using TrimRightSpace_space [OF q] by simp
        also have "\<dots> = TrimRightSpace (TrimLeftSpace (m @ q))"
          using pne s' 2 by (intro IH) simp
        finally show ?thesis using R L by simp
      qed
    next
      case False
      then have R: "TrimRightSpace s = s" by (intro TrimRightSpace_none) auto
      have "\<not> suffix q x" if "q \<in> set unicodeSpaces" for q
        using False that s by (auto simp: suffix_append)
      then have Rx: "TrimRightSpace x = x" by (intro TrimRightSpace_none) auto
      have "TrimRightSpace (TrimLeftSpace x) = TrimLeftSpace (TrimRightSpace x)"
        using pne s by (intro IH [symmetric]) simp
      then show ?thesis using R Rx TrimLeftSpace_space [OF p, of x] s by simp
    qed
  next
    case False
    then have L: "TrimLeftSpace s = s" by (intro TrimLeftSpace_none) auto
    show ?thesis
    proof (cases "\<exists>q \<in> set unicodeSpaces. suffix q s")
      case True
      then obtain q y where q: "q \<in> set unicodeSpaces" and s': "s = y @ q"
        by (auto simp: suffix_def)
      have qne: "q \<noteq> []" using q spaces_nonempty by auto
      have "\<not> prefix p y" if "p \<in> set unicodeSpaces" for p
        using False that s' by (auto simp: prefix_def)
      then have Ly: "TrimLeftSpace y = y" by (intro TrimLeftSpace_none) auto
      have "TrimLeftSpace (TrimRightSpace y) = TrimRightSpace (TrimLeftSpace y)"
        using qne s' by (intro IH) simp
      then show ?thesis using L Ly TrimRightSpace_space [OF q, of y] s' by simp
    next
      case False
      then have "TrimRightSpace s = s" by (intro TrimRightSpace_none) auto
      then show ?thesis using L by simp
    qed
  qed
qed

lemma TrimSpace_TrimLeftSpace: "TrimSpace (TrimLeftSpace s) = TrimSpace s"
  by (simp add: TrimSpace_def TrimLeftSpace_idem)

lemma TrimSpace_TrimRightSpace: "TrimSpace (TrimRightSpace s) = TrimSpace s"
  by (simp add: TrimSpace_def Trim_commute TrimRightSpace_idem)

lemma TrimSpace_at:
  "TrimSpace (l @ CHR ''@'' # d) = TrimLeftSpace l @ CHR ''@'' # TrimRightSpace d"
  by (simp add: TrimSpace_def TrimLeftSpace_at TrimRightSpace_at)

lemma TrimSpace_Nil [simp]: "TrimSpace [] = []"
  by (simp add: TrimSpace_def)

lemma Cut_first:
  "c \<notin> set l \<Longrightarrow> Cut (l @ c # d) c = (l, d, True)"
  by (induction l) (auto simp: Cut_def)


lemma validateEmail_form:
  assumes "CHR ''@'' \<notin> set l"
  shows "validateEmail (l @ CHR ''@'' # d) =
    (if TrimSpace l = [] then ([], Some EmptyLocalPart)
     else if TrimSpace d = [] then ([], Some EmptyDomain)
     else if CHR ''@'' \<in> set d then ([], Some MultipleSeparators)
     else (TrimSpace d, None))"
proof -
  have "CHR ''@'' \<notin> set (TrimLeftSpace l)" using assms by (simp add: at_TrimLeftSpace)
  then have "Cut (TrimLeftSpace l @ CHR ''@'' # TrimRightSpace d) (CHR ''@'')
    = (TrimLeftSpace l, TrimRightSpace d, True)" by (rule Cut_first)
  then show ?thesis
    by (simp add: validateEmail_def TrimSpace_at TrimSpace_TrimLeftSpace TrimSpace_TrimRightSpace
        Contains_def at_TrimSpace)
qed


section \<open>Properties of validateEmail\<close>

lemma TrimSpace_spaces: "set ws \<subseteq> set unicodeSpaces \<Longrightarrow> TrimSpace (concat ws) = []"
proof -
  assume "set ws \<subseteq> set unicodeSpaces"
  then have "TrimLeftSpace (concat ws) = []"
    by (induction ws) (auto simp: TrimLeftSpace_space)
  then show ?thesis by (simp add: TrimSpace_def)
qed

lemma strip_decompose:
  "\<exists>ws. set ws \<subseteq> set pats \<and> s = concat ws @ strip pats s"
proof (induction pats s rule: strip.induct)
  case (1 pats s)
  show ?case
  proof (cases "leading pats s = 0")
    case True
    then have "strip pats s = s" by (subst strip.simps) simp
    then have "set [] \<subseteq> set pats \<and> s = concat [] @ strip pats s" by simp
    then show ?thesis by blast
  next
    case False
    then obtain p where p: "p \<in> set pats" "prefix p s" "leading pats s = length p"
      using leading_match by blast
    from 1 [OF False] obtain ws where ws: "set ws \<subseteq> set pats"
      "drop (leading pats s) s = concat ws @ strip pats (drop (leading pats s) s)" by blast
    have st: "strip pats s = strip pats (drop (leading pats s) s)"
      using False by (subst strip.simps) simp
    have "s = p @ drop (length p) s" using p(2) by (auto simp: prefix_def)
    then have "s = concat (p # ws) @ strip pats s"
      using ws(2) p(3) st by simp
    moreover have "set (p # ws) \<subseteq> set pats" using p(1) ws(1) by simp
    ultimately show ?thesis by blast
  qed
qed

lemma TrimLeftSpace_decompose:
  "\<exists>ws. set ws \<subseteq> set unicodeSpaces \<and> s = concat ws @ TrimLeftSpace s"
  unfolding TrimLeftSpace_def by (rule strip_decompose)

lemma TrimRightSpace_decompose:
  "\<exists>ws. set ws \<subseteq> set unicodeSpaces \<and> s = TrimRightSpace s @ concat ws"
proof -
  obtain ws where ws: "set ws \<subseteq> set (map rev unicodeSpaces)"
    "rev s = concat ws @ strip (map rev unicodeSpaces) (rev s)"
    using strip_decompose by blast
  have "rev (rev s) = rev (concat ws @ strip (map rev unicodeSpaces) (rev s))"
    using ws(2) by simp
  then have "s = TrimRightSpace s @ concat (map rev (rev ws))"
    by (simp add: TrimRightSpace_def rev_concat)
  moreover have "set (map rev (rev ws)) \<subseteq> set unicodeSpaces"
    using ws(1) by auto
  ultimately show ?thesis by blast
qed

lemma TrimLeftSpace_spaces_append:
  "set ws \<subseteq> set unicodeSpaces \<Longrightarrow> TrimLeftSpace (concat ws @ x) = TrimLeftSpace x"
  by (induction ws) (auto simp: TrimLeftSpace_space)

lemma TrimRightSpace_append_spaces:
  "set ws \<subseteq> set unicodeSpaces \<Longrightarrow> TrimRightSpace (x @ concat ws) = TrimRightSpace x"
proof (induction ws rule: rev_induct)
  case Nil
  then show ?case by simp
next
  case (snoc w ws)
  then have w: "w \<in> set unicodeSpaces" and ws: "set ws \<subseteq> set unicodeSpaces" by simp_all
  have "TrimRightSpace ((x @ concat ws) @ w) = TrimRightSpace (x @ concat ws)"
    using w by (rule TrimRightSpace_space)
  then show ?case using snoc.IH [OF ws] by simp
qed

text \<open>White space around a core that neither starts nor ends with white space is
  exactly what \<open>TrimSpace\<close> removes.\<close>

lemma TrimSpace_core:
  assumes "set ws1 \<subseteq> set unicodeSpaces" and "set ws2 \<subseteq> set unicodeSpaces"
    and "\<forall>p \<in> set unicodeSpaces. \<not> prefix p m \<and> \<not> suffix p m"
  shows "TrimSpace (concat ws1 @ m @ concat ws2) = m"
proof -
  have L: "TrimLeftSpace m = m" using assms(3) by (intro TrimLeftSpace_none) auto
  have R: "TrimRightSpace m = m" using assms(3) by (intro TrimRightSpace_none) auto
  have "TrimSpace (concat ws1 @ m @ concat ws2) = TrimRightSpace (TrimLeftSpace (m @ concat ws2))"
    using TrimLeftSpace_spaces_append [OF assms(1)] by (simp add: TrimSpace_def)
  also have "\<dots> = TrimLeftSpace (TrimRightSpace (m @ concat ws2))"
    by (rule Trim_commute [symmetric])
  also have "\<dots> = TrimLeftSpace (TrimRightSpace m)"
    using TrimRightSpace_append_spaces [OF assms(2)] by simp
  finally show ?thesis using L R by simp
qed

lemma TrimSpace_no_space:
  assumes "p \<in> set unicodeSpaces"
  shows "\<not> prefix p (TrimSpace s) \<and> \<not> suffix p (TrimSpace s)"
proof
  have "TrimSpace s = TrimLeftSpace (TrimRightSpace s)"
    by (simp only: TrimSpace_def Trim_commute)
  then have "TrimSpace s = strip unicodeSpaces (TrimRightSpace s)"
    by (simp only: TrimLeftSpace_def)
  then have "leading unicodeSpaces (TrimSpace s) = 0" by (simp add: strip_leading)
  from leading_zero [OF spaces_nonempty this assms] show "\<not> prefix p (TrimSpace s)" .
next
  have "rev (TrimSpace s) = strip (map rev unicodeSpaces) (rev (TrimLeftSpace s))"
    by (simp add: TrimSpace_def TrimRightSpace_def)
  then have "leading (map rev unicodeSpaces) (rev (TrimSpace s)) = 0" by (simp add: strip_leading)
  moreover have "rev p \<in> set (map rev unicodeSpaces)" using assms by simp
  ultimately have "\<not> prefix (rev p) (rev (TrimSpace s))"
    using leading_zero [OF rev_spaces_nonempty] by blast
  then show "\<not> suffix p (TrimSpace s)" by (simp add: suffix_to_prefix)
qed

text \<open>Every string is white space, what \<open>TrimSpace\<close> returns, and white space.\<close>

lemma TrimSpace_decompose:
  "\<exists>ws1 ws2. set ws1 \<subseteq> set unicodeSpaces \<and> set ws2 \<subseteq> set unicodeSpaces
     \<and> s = concat ws1 @ TrimSpace s @ concat ws2"
proof -
  obtain ws1 where 1: "set ws1 \<subseteq> set unicodeSpaces" "s = concat ws1 @ TrimLeftSpace s"
    using TrimLeftSpace_decompose by blast
  obtain ws2 where 2: "set ws2 \<subseteq> set unicodeSpaces"
    "TrimLeftSpace s = TrimRightSpace (TrimLeftSpace s) @ concat ws2"
    using TrimRightSpace_decompose by blast
  have "s = concat ws1 @ TrimSpace s @ concat ws2"
    using 1(2) 2(2) by (simp add: TrimSpace_def)
  then show ?thesis using 1(1) 2(1) by blast
qed

lemma TrimSpace_empty_iff:
  "TrimSpace s = [] \<longleftrightarrow> (\<exists>ws. set ws \<subseteq> set unicodeSpaces \<and> s = concat ws)"
proof
  assume e: "TrimSpace s = []"
  obtain ws1 ws2 where "set ws1 \<subseteq> set unicodeSpaces" "set ws2 \<subseteq> set unicodeSpaces"
    "s = concat ws1 @ TrimSpace s @ concat ws2"
    using TrimSpace_decompose by blast
  then have "set (ws1 @ ws2) \<subseteq> set unicodeSpaces \<and> s = concat (ws1 @ ws2)"
    using e by simp
  then show "\<exists>ws. set ws \<subseteq> set unicodeSpaces \<and> s = concat ws" by blast
next
  assume "\<exists>ws. set ws \<subseteq> set unicodeSpaces \<and> s = concat ws"
  then show "TrimSpace s = []" using TrimSpace_spaces by blast
qed

text \<open>
  Claim C1. Take an input \<open>local@domain\<close>, where \<open>local\<close> is the text before the first
  \<open>@\<close> and is not white space only, and where \<open>domain\<close> is a core \<open>m\<close> with any white
  space before and after it; the core is not empty, holds no \<open>@\<close>, and neither starts
  nor ends with white space. Then \<open>validateEmail\<close> returns the core \<open>m\<close>, byte for byte
  (no case folding), and no error. By \<open>TrimSpace_decompose\<close> and \<open>TrimSpace_no_space\<close>
  every domain part that is not white space only has this form.
\<close>

theorem validateEmail_returns_domain:
  assumes "CHR ''@'' \<notin> set l"
    and "\<not> (\<exists>ws. set ws \<subseteq> set unicodeSpaces \<and> l = concat ws)"
    and "set ws1 \<subseteq> set unicodeSpaces"
    and "set ws2 \<subseteq> set unicodeSpaces"
    and "m \<noteq> []"
    and "CHR ''@'' \<notin> set m"
    and "\<forall>p \<in> set unicodeSpaces. \<not> prefix p m \<and> \<not> suffix p m"
  shows "validateEmail (l @ ''@'' @ concat ws1 @ m @ concat ws2) = (m, None)"
proof -
  let ?d = "concat ws1 @ m @ concat ws2"
  have l: "TrimSpace l \<noteq> []" using assms(2) by (simp add: TrimSpace_empty_iff)
  have d: "TrimSpace ?d = m" using assms(3,4,7) by (rule TrimSpace_core)
  have "CHR ''@'' \<notin> set (concat ws1)" "CHR ''@'' \<notin> set (concat ws2)"
    using assms(3,4) spaces_no_at by auto
  then have at: "CHR ''@'' \<notin> set ?d" using assms(6) by simp
  show ?thesis
    using validateEmail_form [OF assms(1), of ?d] l d at assms(5) by simp
qed

theorem validateEmail_returns_domain_witness:
  "CHR ''@'' \<notin> set ''  user''
   \<and> set [[CHR 0x09], [CHR 0x20]] \<subseteq> set unicodeSpaces
   \<and> set [[CHR 0x20], [CHR 0xC2, CHR 0xA0]] \<subseteq> set unicodeSpaces
   \<and> ''Example.COM'' \<noteq> []
   \<and> CHR ''@'' \<notin> set ''Example.COM''
   \<and> validateEmail (''  user'' @ ''@'' @ concat [[CHR 0x09], [CHR 0x20]] @ ''Example.COM''
                      @ concat [[CHR 0x20], [CHR 0xC2, CHR 0xA0]])
     = (''Example.COM'', None)"
proof -
  have a: "CHR ''@'' \<notin> set ''  user''" by simp
  have "TrimSpace ''  user'' \<noteq> []" by code_simp
  then have b: "\<not> (\<exists>ws. set ws \<subseteq> set unicodeSpaces \<and> ''  user'' = concat ws)"
    by (simp add: TrimSpace_empty_iff)
  have c: "set [[CHR 0x09], [CHR 0x20]] \<subseteq> set unicodeSpaces" by (simp add: unicodeSpaces_def)
  have d: "set [[CHR 0x20], [CHR 0xC2, CHR 0xA0]] \<subseteq> set unicodeSpaces"
    by (simp add: unicodeSpaces_def)
  have e: "''Example.COM'' \<noteq> []" by simp
  have f: "CHR ''@'' \<notin> set ''Example.COM''" by simp
  have g: "\<forall>p \<in> set unicodeSpaces. \<not> prefix p ''Example.COM'' \<and> \<not> suffix p ''Example.COM''"
    by (simp add: unicodeSpaces_def suffix_to_prefix)
  from validateEmail_returns_domain [OF a b c d e f g] a b c d e f g
  show ?thesis by blast
qed




section \<open>The read loop\<close>

lemma Read_header:
  "Read (NewReader (Record h # rows)) =
     ((h, None), \<lparr>FieldsPerRecord = int (length h), input = rows\<rparr>)"
  by (simp add: Read_def NewReader_def)

lemma importRows_Nil:
  "input r = [] \<Longrightarrow> importRows picks verbose r data rc log = finish picks verbose data rc log"
  by (subst importRows.simps) (simp add: Read_def)

lemma importRows_Malformed:
  "input r = Malformed fs # rest \<Longrightarrow>
     importRows picks verbose r data rc log = ((None, Some ParseError), log)"
  by (subst importRows.simps) (simp add: Read_def)

lemma importRows_FieldCount:
  "input r = Record fs # rest \<Longrightarrow> 0 < FieldsPerRecord r \<Longrightarrow> int (length fs) \<noteq> FieldsPerRecord r \<Longrightarrow>
     importRows picks verbose r data rc log = ((None, Some ErrFieldCount), log)"
  by (subst importRows.simps) (simp add: Read_def)

lemma importRows_short:
  "input r = Record fs # rest \<Longrightarrow> FieldsPerRecord r \<le> 0 \<or> int (length fs) = FieldsPerRecord r \<Longrightarrow>
   length fs \<le> emailColumnIndex \<Longrightarrow>
     fst (importRows picks verbose r data rc log)
       = (None, Some (InsufficientColumns (emailColumnIndex + 1) (length fs)))"
  by (subst importRows.simps) (auto simp: Read_def Let_def)

lemma importRows_invalid:
  "input r = Record fs # rest \<Longrightarrow> FieldsPerRecord r \<le> 0 \<or> int (length fs) = FieldsPerRecord r \<Longrightarrow>
   emailColumnIndex < length fs \<Longrightarrow> validateEmail (fs ! emailColumnIndex) = (d, Some e) \<Longrightarrow>
     fst (importRows picks verbose r data rc log) = (None, Some (InvalidEmailInCSV e))"
  by (subst importRows.simps) (auto simp: Read_def Let_def)

lemma importRows_valid:
  "input r = Record fs # rest \<Longrightarrow> int (length fs) = FieldsPerRecord r \<Longrightarrow>
   emailColumnIndex < length fs \<Longrightarrow> validateEmail (fs ! emailColumnIndex) = (d, None) \<Longrightarrow>
     importRows picks verbose r data rc log
       = importRows picks verbose (r\<lparr>input := rest\<rparr>) (mapIncrement data d) (rc + 1)
           (afterRow verbose data rc log)"
  by (subst importRows.simps) (auto simp: Read_def Let_def afterRow_def)

lemma importRows_valid0:
  "input r = Record fs # rest \<Longrightarrow> FieldsPerRecord r \<le> 0 \<Longrightarrow>
   emailColumnIndex < length fs \<Longrightarrow> validateEmail (fs ! emailColumnIndex) = (d, None) \<Longrightarrow>
     importRows picks verbose r data rc log
       = importRows picks verbose
           (r\<lparr>FieldsPerRecord := (if FieldsPerRecord r = 0 then int (length fs) else FieldsPerRecord r),
              input := rest\<rparr>)
           (mapIncrement data d) (rc + 1) (afterRow verbose data rc log)"
  by (subst importRows.simps) (auto simp: Read_def Let_def afterRow_def)

subsection \<open>The map\<close>

lemma mapStore_keys: "fst ` set (mapStore m k v) = insert k (fst ` set m)"
  by (induction m k v rule: mapStore.induct) auto

lemma mapStore_distinct: "distinct (map fst m) \<Longrightarrow> distinct (map fst (mapStore m k v))"
proof (induction m k v rule: mapStore.induct)
  case (1 k v)
  then show ?case by simp
next
  case (2 k' v' m k v)
  show ?case
  proof (cases "k' = k")
    case True
    then show ?thesis using 2 by simp
  next
    case False
    have "k' \<notin> fst ` set (mapStore m k v)"
      using False 2 by (simp add: mapStore_keys)
    then show ?thesis using False 2 by simp
  qed
qed

lemma mapIncrement_distinct: "distinct (map fst m) \<Longrightarrow> distinct (map fst (mapIncrement m k))"
  by (simp add: mapIncrement_def mapStore_distinct)

lemma mapLoad_le: "unat (mapLoad m k) \<le> sum_list (map (unat \<circ> snd) m)"
  by (induction m) (auto simp: mapLoad_def)

lemma unat_Suc_word:
  fixes v :: "64 word"
  shows "unat v + 1 < 2 ^ 64 \<Longrightarrow> unat (v + 1) = unat v + 1"
  by (simp add: unat_word_ariths)

lemma mapIncrement_sum:
  "sum_list (map (unat \<circ> snd) m) + 1 < 2 ^ 64 \<Longrightarrow>
     sum_list (map (unat \<circ> snd) (mapIncrement m k)) = sum_list (map (unat \<circ> snd) m) + 1"
proof (induction m)
  case Nil
  then show ?case by (simp add: mapIncrement_def mapLoad_def)
next
  case (Cons a m)
  obtain k' v' where a: "a = (k', v')" by (cases a)
  show ?case
  proof (cases "k' = k")
    case True
    have "unat v' + 1 < 2 ^ 64" using Cons.prems a by simp
    then have "unat (v' + 1) = unat v' + 1" by (rule unat_Suc_word)
    then show ?thesis using True a by (simp add: mapIncrement_def mapLoad_def)
  next
    case False
    have "sum_list (map (unat \<circ> snd) (a # m)) = unat (snd a) + sum_list (map (unat \<circ> snd) m)"
      by simp
    with Cons.prems have "sum_list (map (unat \<circ> snd) m) + 1 < 2 ^ 64" by linarith
    from Cons.IH [OF this] show ?thesis
      using False a by (simp add: mapIncrement_def mapLoad_def)
  qed
qed

subsection \<open>Iteration and sorting\<close>

lemma mset_rangeMap: "mset (rangeMap ps xs) = mset xs"
proof (induction ps xs rule: rangeMap.induct)
  case (3 p ps x xs)
  let ?ys = "x # xs"
  let ?i = "p mod length ?ys"
  have i: "?i < length ?ys" by simp
  have "mset ?ys = mset (take ?i ?ys @ ?ys ! ?i # drop (Suc ?i) ?ys)"
    using id_take_nth_drop [OF i] by simp
  also have "\<dots> = mset (?ys ! ?i # (take ?i ?ys @ drop (Suc ?i) ?ys))" by simp
  finally show ?case using 3 by (simp add: Let_def)
qed simp_all

lemma insertFunc_insort:
  "insertFunc (\<lambda>l r. Compare (f l) (f r)) x ys = insort_key f x ys"
  by (induction ys) (auto simp: Compare_def)

lemma SortFunc_sort_key: "SortFunc (\<lambda>l r. Compare (f l) (f r)) xs = sort_key f xs"
  by (induction xs) (simp_all add: SortFunc_def insertFunc_insort)

lemma filter_key_distinct:
  "distinct (map f xs) \<Longrightarrow> k \<in> set xs \<Longrightarrow> filter (\<lambda>x. f k = f x) xs = [k]"
proof (induction xs)
  case Nil
  then show ?case by simp
next
  case (Cons a xs)
  show ?case
  proof (cases "k = a")
    case True
    have "filter (\<lambda>x. f a = f x) xs = []"
      using Cons.prems(1) by (auto simp: filter_empty_conv)
    then show ?thesis using True by simp
  next
    case False
    then have "k \<in> set xs" using Cons.prems by simp
    then have "f k \<noteq> f a" using Cons.prems(1) by (metis distinct.simps(2) imageI list.simps(9) list.set_map)
    then show ?thesis using Cons \<open>k \<in> set xs\<close> by simp
  qed
qed

text \<open>On distinct keys the sorted list is determined by the elements alone: whatever
  list a sorting algorithm returns, it is the one insertion sort returns.\<close>

lemma SortFunc_unique:
  assumes d: "distinct (map f xs)" and m: "mset ys = mset xs" and s: "sorted (map f ys)"
  shows "SortFunc (\<lambda>l r. Compare (f l) (f r)) xs = ys"
proof -
  have "sort_key f xs = ys"
  proof (rule properties_for_sort_key [OF m _ s])
    fix k assume k: "k \<in> set ys"
    then have kx: "k \<in> set xs" using m by (metis mset_eq_setD)
    have "mset (map f ys) = mset (map f xs)" using m by simp
    then have dy: "distinct (map f ys)"
      using d mset_eq_imp_distinct_iff by blast
    show "filter (\<lambda>x. f k = f x) ys = filter (\<lambda>x. f k = f x) xs"
      using filter_key_distinct [OF d kx] filter_key_distinct [OF dy k] by simp
  qed
  then show ?thesis by (simp add: SortFunc_sort_key)
qed

lemma finish_eq:
  "finish picks verbose data rc log =
     ((Some (sort_key Domain (map (\<lambda>(k, v). \<lparr>Domain = k, CustomerQuantity = v\<rparr>) (rangeMap picks data))), None),
      slogInfo verbose log ''aggregation complete''
        [(''total_rows'', Num (unat rc)), (''unique_domains'', Num (length data))])"
  by (simp add: finish_def Let_def SortFunc_sort_key)

lemma Domain_entries:
  "map Domain (map (\<lambda>(k, v). \<lparr>Domain = k, CustomerQuantity = v\<rparr>) xs) = map fst xs"
  by (induction xs) auto

lemma Quantity_entries:
  "map (unat \<circ> CustomerQuantity) (map (\<lambda>(k, v). \<lparr>Domain = k, CustomerQuantity = v\<rparr>) xs)
     = map (unat \<circ> snd) xs"
  by (induction xs) auto

lemma finish_sorted:
  assumes "distinct (map fst data)"
    and "fst (finish picks verbose data rc log) = (Some res, e)"
  shows "sorted (map Domain res) \<and> distinct (map Domain res)"
proof -
  let ?xs = "map (\<lambda>(k, v). \<lparr>Domain = k, CustomerQuantity = v\<rparr>) (rangeMap picks data)"
  have res: "res = sort_key Domain ?xs" using assms(2) by (simp add: finish_eq)
  have "mset (map fst (rangeMap picks data)) = mset (map fst data)"
    by (simp add: mset_rangeMap)
  then have "distinct (map fst (rangeMap picks data))"
    using assms(1) mset_eq_imp_distinct_iff by blast
  then have "distinct (map Domain ?xs)" by (simp only: Domain_entries)
  moreover have "mset (map Domain (sort_key Domain ?xs)) = mset (map Domain ?xs)"
    by (simp only: mset_map mset_sort)
  ultimately have "distinct (map Domain (sort_key Domain ?xs))"
    using mset_eq_imp_distinct_iff by blast
  moreover have "sorted (map Domain (sort_key Domain ?xs))" by (rule sorted_sort_key)
  ultimately show ?thesis by (simp only: res)
qed

lemma sum_list_mset_cong:
  fixes g :: "'a \<Rightarrow> nat"
  assumes "mset xs = mset ys"
  shows "sum_list (map g xs) = sum_list (map g ys)"
proof -
  have "mset (map g xs) = image_mset g (mset xs)" "mset (map g ys) = image_mset g (mset ys)"
    by (rule mset_map)+
  then have "mset (map g xs) = mset (map g ys)" using assms by (simp only:)
  then have "sum_mset (mset (map g xs)) = sum_mset (mset (map g ys))" by (simp only:)
  then show ?thesis by (simp only: sum_mset_sum_list)
qed

lemma finish_sum:
  assumes "fst (finish picks verbose data rc log) = (Some res, e)"
  shows "sum_list (map (unat \<circ> CustomerQuantity) res) = sum_list (map (unat \<circ> snd) data)"
proof -
  let ?xs = "map (\<lambda>(k, v). \<lparr>Domain = k, CustomerQuantity = v\<rparr>) (rangeMap picks data)"
  have res: "res = sort_key Domain ?xs" using assms by (simp add: finish_eq)
  have "sum_list (map (unat \<circ> CustomerQuantity) res) = sum_list (map (unat \<circ> CustomerQuantity) ?xs)"
    unfolding res by (rule sum_list_mset_cong) (rule mset_sort)
  also have "\<dots> = sum_list (map (unat \<circ> snd) (rangeMap picks data))"
    by (simp only: Quantity_entries)
  also have "\<dots> = sum_list (map (unat \<circ> snd) data)"
    by (rule sum_list_mset_cong) (rule mset_rangeMap)
  finally show ?thesis .
qed

lemma finish_picks:
  assumes "distinct (map fst data)"
  shows "fst (finish picks verbose data rc log) = fst (finish picks' verbose' data rc' log')"
proof -
  let ?mk = "\<lambda>(k, v). \<lparr>Domain = k, CustomerQuantity = v\<rparr>"
  let ?xs = "map ?mk (rangeMap picks data)"
  let ?ys = "map ?mk (rangeMap picks' data)"
  have "distinct (map fst (rangeMap picks data))"
    using assms mset_eq_imp_distinct_iff [of "map fst (rangeMap picks data)" "map fst data"]
    by (simp add: mset_rangeMap)
  then have d: "distinct (map Domain ?xs)" by (simp only: Domain_entries)
  have m: "mset (sort_key Domain ?ys) = mset ?xs" by (simp add: mset_rangeMap)
  have "SortFunc (\<lambda>l r. Compare (Domain l) (Domain r)) ?xs = sort_key Domain ?ys"
    by (rule SortFunc_unique [OF d m]) simp
  then show ?thesis by (simp add: finish_def Let_def SortFunc_sort_key)
qed

text \<open>The shape of every result of the loop: a slice and no error, or an error and no slice.\<close>

lemma importRows_shape:
  "(\<exists>res. fst (importRows picks verbose r data rc log) = (Some res, None))
   \<or> (\<exists>e. fst (importRows picks verbose r data rc log) = (None, Some e))"
proof (induction "input r" arbitrary: r data rc log)
  case Nil
  then show ?case by (simp add: importRows_Nil finish_eq)
next
  case (Cons l rest)
  note inp = Cons.hyps(2) [symmetric]
  show ?case
  proof (cases l)
    case (Malformed fs)
    then show ?thesis using inp by (simp add: importRows_Malformed)
  next
    case (Record fs)
    with inp have inp': "input r = Record fs # rest" by simp
    show ?thesis
    proof (cases "0 < FieldsPerRecord r \<and> int (length fs) \<noteq> FieldsPerRecord r")
      case True
      then show ?thesis using inp' by (simp add: importRows_FieldCount)
    next
      case False
      then have ok: "FieldsPerRecord r \<le> 0 \<or> int (length fs) = FieldsPerRecord r" by auto
      show ?thesis
      proof (cases "length fs \<le> emailColumnIndex")
        case True
        then show ?thesis using importRows_short [OF inp' ok] by simp
      next
        case False
        then have long: "emailColumnIndex < length fs" by simp
        obtain d e where v: "validateEmail (fs ! emailColumnIndex) = (d, e)"
          by (cases "validateEmail (fs ! emailColumnIndex)")
        show ?thesis
        proof (cases e)
          case (Some err)
          then show ?thesis using importRows_invalid [OF inp' ok long] v by simp
        next
          case None
          let ?r' = "r\<lparr>FieldsPerRecord := (if FieldsPerRecord r = 0 then int (length fs) else FieldsPerRecord r),
                        input := rest\<rparr>"
          have step: "importRows picks verbose r data rc log
            = importRows picks verbose ?r' (mapIncrement data d) (rc + 1) (afterRow verbose data rc log)"
          proof (cases "FieldsPerRecord r \<le> 0")
            case True
            then show ?thesis using importRows_valid0 [OF inp' True long] v None by simp
          next
            case False
            with ok have "int (length fs) = FieldsPerRecord r" by simp
            from importRows_valid [OF inp' this long] v None False show ?thesis by simp
          qed
          have "rest = input ?r'" by simp
          from Cons.hyps(1) [OF this] show ?thesis by (simp only: step)
        qed
      qed
    qed
  qed
qed

lemma importRows_sorted:
  "distinct (map fst data) \<Longrightarrow> fst (importRows picks verbose r data rc log) = (Some res, e) \<Longrightarrow>
     sorted (map Domain res) \<and> distinct (map Domain res)"
proof (induction "input r" arbitrary: r data rc log)
  case Nil
  then show ?case using finish_sorted [of data picks verbose rc log res e] by (simp add: importRows_Nil)
next
  case (Cons l rest)
  note inp = Cons.hyps(2) [symmetric]
  show ?case
  proof (cases l)
    case (Malformed fs)
    then show ?thesis using inp Cons.prems by (simp add: importRows_Malformed)
  next
    case (Record fs)
    with inp have inp': "input r = Record fs # rest" by simp
    show ?thesis
    proof (cases "0 < FieldsPerRecord r \<and> int (length fs) \<noteq> FieldsPerRecord r")
      case True
      then show ?thesis using inp' Cons.prems by (simp add: importRows_FieldCount)
    next
      case False
      then have ok: "FieldsPerRecord r \<le> 0 \<or> int (length fs) = FieldsPerRecord r" by auto
      show ?thesis
      proof (cases "length fs \<le> emailColumnIndex")
        case True
        then show ?thesis using importRows_short [OF inp' ok] Cons.prems by simp
      next
        case False
        then have long: "emailColumnIndex < length fs" by simp
        obtain d e' where v: "validateEmail (fs ! emailColumnIndex) = (d, e')"
          by (cases "validateEmail (fs ! emailColumnIndex)")
        show ?thesis
        proof (cases e')
          case (Some err)
          then show ?thesis using importRows_invalid [OF inp' ok long] v Cons.prems by simp
        next
          case None
          let ?r' = "r\<lparr>FieldsPerRecord := (if FieldsPerRecord r = 0 then int (length fs) else FieldsPerRecord r),
                        input := rest\<rparr>"
          have step: "importRows picks verbose r data rc log
            = importRows picks verbose ?r' (mapIncrement data d) (rc + 1) (afterRow verbose data rc log)"
          proof (cases "FieldsPerRecord r \<le> 0")
            case True
            then show ?thesis using importRows_valid0 [OF inp' True long] v None by simp
          next
            case False
            with ok have "int (length fs) = FieldsPerRecord r" by simp
            from importRows_valid [OF inp' this long] v None False show ?thesis by simp
          qed
          have "rest = input ?r'" by simp
          from Cons.hyps(1) [OF this mapIncrement_distinct [OF Cons.prems(1)]] Cons.prems(2)
          show ?thesis by (simp only: step)
        qed
      qed
    qed
  qed
qed

lemma importRows_picks:
  "distinct (map fst data) \<Longrightarrow>
     fst (importRows picks verbose r data rc log) = fst (importRows picks' verbose' r data rc log')"
proof (induction "input r" arbitrary: r data rc log log')
  case Nil
  then show ?case using finish_picks [of data] by (simp add: importRows_Nil)
next
  case (Cons l rest)
  note inp = Cons.hyps(2) [symmetric]
  show ?case
  proof (cases l)
    case (Malformed fs)
    then show ?thesis using inp by (simp add: importRows_Malformed)
  next
    case (Record fs)
    with inp have inp': "input r = Record fs # rest" by simp
    show ?thesis
    proof (cases "0 < FieldsPerRecord r \<and> int (length fs) \<noteq> FieldsPerRecord r")
      case True
      then show ?thesis using inp' by (simp add: importRows_FieldCount)
    next
      case False
      then have ok: "FieldsPerRecord r \<le> 0 \<or> int (length fs) = FieldsPerRecord r" by auto
      show ?thesis
      proof (cases "length fs \<le> emailColumnIndex")
        case True
        then show ?thesis using importRows_short [OF inp' ok] by simp
      next
        case False
        then have long: "emailColumnIndex < length fs" by simp
        obtain d e' where v: "validateEmail (fs ! emailColumnIndex) = (d, e')"
          by (cases "validateEmail (fs ! emailColumnIndex)")
        show ?thesis
        proof (cases e')
          case (Some err)
          then show ?thesis using importRows_invalid [OF inp' ok long] v by simp
        next
          case None
          let ?r' = "r\<lparr>FieldsPerRecord := (if FieldsPerRecord r = 0 then int (length fs) else FieldsPerRecord r),
                        input := rest\<rparr>"
          have step: "importRows ps vb r data rc lg
            = importRows ps vb ?r' (mapIncrement data d) (rc + 1) (afterRow vb data rc lg)" for ps vb lg
          proof (cases "FieldsPerRecord r \<le> 0")
            case True
            then show ?thesis using importRows_valid0 [OF inp' True long] v None by simp
          next
            case False
            with ok have "int (length fs) = FieldsPerRecord r" by simp
            from importRows_valid [OF inp' this long] v None False show ?thesis by simp
          qed
          have "rest = input ?r'" by simp
          from Cons.hyps(1) [OF this mapIncrement_distinct [OF Cons.prems(1)]]
          show ?thesis by (simp only: step)
        qed
      qed
    qed
  qed
qed

lemma importRows_wellFormed:
  "FieldsPerRecord r = int n \<Longrightarrow> list_all (validRow n) (input r) \<Longrightarrow>
   sum_list (map (unat \<circ> snd) data) + length (input r) < 2 ^ 64 \<Longrightarrow>
     \<exists>res. fst (importRows picks verbose r data rc log) = (Some res, None)
       \<and> sum_list (map (unat \<circ> CustomerQuantity) res)
           = sum_list (map (unat \<circ> snd) data) + length (input r)"
proof (induction "input r" arbitrary: r data rc log)
  case Nil
  obtain res where res: "fst (finish picks verbose data rc log) = (Some res, None)"
    by (simp add: finish_eq)
  have inp: "input r = []" using Nil.hyps by simp
  have "fst (importRows picks verbose r data rc log) = (Some res, None)"
    using res by (simp only: importRows_Nil [OF inp])
  moreover have "sum_list (map (unat \<circ> CustomerQuantity) res)
      = sum_list (map (unat \<circ> snd) data) + length (input r)"
    using finish_sum [OF res] by (simp only: inp list.size add_0_right)
  ultimately show ?case by blast
next
  case (Cons l rest)
  note inp = Cons.hyps(2) [symmetric]
  from Cons.prems(2) inp have l: "validRow n l" and rest: "list_all (validRow n) rest" by simp_all
  from l obtain fs where fs: "l = Record fs" "length fs = n" "emailColumnIndex < length fs"
    "snd (validateEmail (fs ! emailColumnIndex)) = None"
    by (auto simp: validRow_def split: line.splits)
  obtain d where v: "validateEmail (fs ! emailColumnIndex) = (d, None)"
    using fs(4) by (cases "validateEmail (fs ! emailColumnIndex)") auto
  have inp': "input r = Record fs # rest" using inp fs(1) by simp
  have fpr: "int (length fs) = FieldsPerRecord r" using fs(2) Cons.prems(1) by simp
  let ?r' = "r\<lparr>input := rest\<rparr>"
  have step: "importRows picks verbose r data rc log
     = importRows picks verbose ?r' (mapIncrement data d) (rc + 1) (afterRow verbose data rc log)"
    by (rule importRows_valid [OF inp' fpr fs(3) v])
  have bound: "sum_list (map (unat \<circ> snd) data) + Suc (length rest) < 2 ^ 64"
    using Cons.prems(3) inp by simp
  then have "sum_list (map (unat \<circ> snd) data) + 1 < 2 ^ 64" by simp
  then have inc: "sum_list (map (unat \<circ> snd) (mapIncrement data d)) = sum_list (map (unat \<circ> snd) data) + 1"
    by (rule mapIncrement_sum)
  have "rest = input ?r'" by simp
  moreover have "FieldsPerRecord ?r' = int n" using Cons.prems(1) by simp
  moreover have "list_all (validRow n) (input ?r')" using rest by simp
  moreover have "sum_list (map (unat \<circ> snd) (mapIncrement data d)) + length (input ?r') < 2 ^ 64"
    using bound inc by simp
  ultimately obtain res where
    A: "fst (importRows picks verbose ?r' (mapIncrement data d) (rc + 1) (afterRow verbose data rc log)) = (Some res, None)"
    and B: "sum_list (map (unat \<circ> CustomerQuantity) res)
       = sum_list (map (unat \<circ> snd) (mapIncrement data d)) + length (input ?r')"
    using Cons.hyps(1) [of ?r' "mapIncrement data d" "rc + 1" "afterRow verbose data rc log"] by blast
  have len: "length (input r) = Suc (length rest)" "length (input ?r') = length rest"
    using inp by simp_all
  have "fst (importRows picks verbose r data rc log) = (Some res, None)"
    using A by (simp only: step)
  moreover have "sum_list (map (unat \<circ> CustomerQuantity) res)
      = sum_list (map (unat \<circ> snd) data) + length (input r)"
    using B inc len by linarith
  ultimately show ?case by blast
qed

lemma importRows_short_row:
  "FieldsPerRecord rd = int n \<Longrightarrow> 0 < n \<Longrightarrow> list_all (validRow n) good \<Longrightarrow>
   input rd = good @ Record r # rest \<Longrightarrow> length r \<le> emailColumnIndex \<Longrightarrow>
     fst (importRows picks verbose rd data rc log)
       = (None, Some (if length r = n then InsufficientColumns (emailColumnIndex + 1) (length r)
                      else ErrFieldCount))"
proof (induction good arbitrary: rd data rc log)
  case Nil
  then have inp: "input rd = Record r # rest" by simp
  show ?case
  proof (cases "length r = n")
    case True
    then have "FieldsPerRecord rd \<le> 0 \<or> int (length r) = FieldsPerRecord rd" using Nil by simp
    from importRows_short [OF inp this Nil.prems(5)] True show ?thesis by simp
  next
    case False
    then have "0 < FieldsPerRecord rd" "int (length r) \<noteq> FieldsPerRecord rd" using Nil by simp_all
    from importRows_FieldCount [OF inp this] False show ?thesis by simp
  qed
next
  case (Cons l good)
  from Cons.prems(3) have l: "validRow n l" and good: "list_all (validRow n) good" by simp_all
  from l obtain fs where fs: "l = Record fs" "length fs = n" "emailColumnIndex < length fs"
    "snd (validateEmail (fs ! emailColumnIndex)) = None"
    by (auto simp: validRow_def split: line.splits)
  obtain d where v: "validateEmail (fs ! emailColumnIndex) = (d, None)"
    using fs(4) by (cases "validateEmail (fs ! emailColumnIndex)") auto
  have inp: "input rd = Record fs # (good @ Record r # rest)" using Cons.prems(4) fs(1) by simp
  have fpr: "int (length fs) = FieldsPerRecord rd" using fs(2) Cons.prems(1) by simp
  let ?r' = "rd\<lparr>input := good @ Record r # rest\<rparr>"
  have step: "importRows picks verbose rd data rc log
     = importRows picks verbose ?r' (mapIncrement data d) (rc + 1) (afterRow verbose data rc log)"
    by (rule importRows_valid [OF inp fpr fs(3) v])
  have "FieldsPerRecord ?r' = int n" using Cons.prems(1) by simp
  moreover have "input ?r' = good @ Record r # rest" by simp
  ultimately show ?case
    using Cons.IH [of ?r' "mapIncrement data d" "rc + 1" "afterRow verbose data rc log"]
      Cons.prems(2,5) good
    by (simp only: step)
qed

section \<open>Properties of ImportDomainData and ExportData\<close>

lemma path_customers: "path customers = ''customers.csv''"
  by (simp add: customers_def NewCustomerImporter_def)

lemma ImportDomainData_header:
  "fs (path ci) = Some (Record header # rows) \<Longrightarrow>
     ImportDomainData picks verbose fs ci
       = importRows picks verbose \<lparr>FieldsPerRecord = int (length header), input = rows\<rparr> [] 0 []"
  by (simp add: ImportDomainData_def Read_header)

lemma importRows_malformed_row:
  "FieldsPerRecord rd = int n \<Longrightarrow> list_all (validRow n) good \<Longrightarrow>
   input rd = good @ Malformed r # rest \<Longrightarrow>
     fst (importRows picks verbose rd data rc log) = (None, Some ParseError)"
proof (induction good arbitrary: rd data rc log)
  case Nil
  then show ?case by (simp add: importRows_Malformed)
next
  case (Cons l good)
  from Cons.prems(2) have l: "validRow n l" and good: "list_all (validRow n) good" by simp_all
  from l obtain fs where fs: "l = Record fs" "length fs = n" "emailColumnIndex < length fs"
    "snd (validateEmail (fs ! emailColumnIndex)) = None"
    by (auto simp: validRow_def split: line.splits)
  obtain d where v: "validateEmail (fs ! emailColumnIndex) = (d, None)"
    using fs(4) by (cases "validateEmail (fs ! emailColumnIndex)") auto
  have inp: "input rd = Record fs # (good @ Malformed r # rest)" using Cons.prems(3) fs(1) by simp
  have fpr: "int (length fs) = FieldsPerRecord rd" using fs(2) Cons.prems(1) by simp
  let ?r' = "rd\<lparr>input := good @ Malformed r # rest\<rparr>"
  have step: "importRows picks verbose rd data rc log
     = importRows picks verbose ?r' (mapIncrement data d) (rc + 1) (afterRow verbose data rc log)"
    by (rule importRows_valid [OF inp fpr fs(3) v])
  have "FieldsPerRecord ?r' = int n" using Cons.prems(1) by simp
  moreover have "input ?r' = good @ Malformed r # rest" by simp
  ultimately show ?case
    using Cons.IH [of ?r' "mapIncrement data d" "rc + 1" "afterRow verbose data rc log"] good
    by (simp only: step)
qed

text \<open>A record that does not lex, or lexes into too few fields, stops the loop with an
  error wherever it stands: either an earlier record has stopped it, or this one does.\<close>

lemma importRows_bad_anywhere:
  "input rd = pre @ l # rest \<Longrightarrow> l = Record r \<and> length r \<le> emailColumnIndex \<or> l = Malformed r \<Longrightarrow>
     \<exists>e. fst (importRows picks verbose rd data rc log) = (None, Some e)"
proof (induction pre arbitrary: rd data rc log)
  case Nil
  show ?case
  proof (cases l)
    case (Malformed fs)
    then show ?thesis using Nil by (simp add: importRows_Malformed)
  next
    case (Record fs)
    with Nil have inp: "input rd = Record r # rest" and short: "length r \<le> emailColumnIndex"
      by auto
    show ?thesis
    proof (cases "0 < FieldsPerRecord rd \<and> int (length r) \<noteq> FieldsPerRecord rd")
      case True
      then show ?thesis using inp by (simp add: importRows_FieldCount)
    next
      case False
      then have "FieldsPerRecord rd \<le> 0 \<or> int (length r) = FieldsPerRecord rd" by auto
      from importRows_short [OF inp this short] show ?thesis by blast
    qed
  qed
next
  case (Cons x pre)
  show ?case
  proof (cases x)
    case (Malformed fs)
    then show ?thesis using Cons.prems(1) by (simp add: importRows_Malformed)
  next
    case (Record fs)
    with Cons.prems(1) have inp: "input rd = Record fs # (pre @ l # rest)" by simp
    show ?thesis
    proof (cases "0 < FieldsPerRecord rd \<and> int (length fs) \<noteq> FieldsPerRecord rd")
      case True
      then show ?thesis using inp by (simp add: importRows_FieldCount)
    next
      case False
      then have ok: "FieldsPerRecord rd \<le> 0 \<or> int (length fs) = FieldsPerRecord rd" by auto
      show ?thesis
      proof (cases "length fs \<le> emailColumnIndex")
        case True
        from importRows_short [OF inp ok True] show ?thesis by blast
      next
        case False
        then have long: "emailColumnIndex < length fs" by simp
        obtain d e' where v: "validateEmail (fs ! emailColumnIndex) = (d, e')"
          by (cases "validateEmail (fs ! emailColumnIndex)")
        show ?thesis
        proof (cases e')
          case (Some err)
          then show ?thesis using importRows_invalid [OF inp ok long] v by blast
        next
          case None
          let ?r' = "rd\<lparr>FieldsPerRecord := (if FieldsPerRecord rd = 0 then int (length fs) else FieldsPerRecord rd),
                        input := pre @ l # rest\<rparr>"
          have step: "importRows picks verbose rd data rc log
            = importRows picks verbose ?r' (mapIncrement data d) (rc + 1) (afterRow verbose data rc log)"
          proof (cases "FieldsPerRecord rd \<le> 0")
            case True
            then show ?thesis using importRows_valid0 [OF inp True long] v None by simp
          next
            case False
            with ok have "int (length fs) = FieldsPerRecord rd" by simp
            from importRows_valid [OF inp this long] v None False show ?thesis by simp
          qed
          have "input ?r' = pre @ l # rest" by simp
          from Cons.IH [OF this Cons.prems(2)] show ?thesis by (simp only: step)
        qed
      qed
    qed
  qed
qed

text \<open>
  Claim C3 as stated, that a data record with at most two fields makes the import fail
  with \<open>InsufficientColumns\<close>, does not hold: in the three-row file under the
  five-column header with one row replaced by \<open>John,Doe\<close>, the reader itself rejects
  the short record with \<open>csv.ErrFieldCount\<close> ("wrong number of fields"), before the
  column check of the loop is reached.
\<close>

theorem short_row_counterexample:
  "fst (ImportDomainData [] False
          [''customers.csv'' \<mapsto> [Record standardHeader, janeRow, Record [''John'', ''Doe''], annRow]]
          customers)
     = (None, Some ErrFieldCount)
   \<and> fst (ImportDomainData [] False
          [''customers.csv'' \<mapsto> [Record standardHeader, janeRow, Record [''John'', ''Doe''], annRow]]
          customers)
     \<noteq> (None, Some (InsufficientColumns 3 2))"
  by code_simp

text \<open>
  Claim C3, amended. A data record of at most two fields, wherever it stands in the
  source, makes the import fail: an error is returned and no data. When the header is
  readable and every record before the short one is a valid row, the error is
  \<open>InsufficientColumns 3 n\<close>, expected minimum and actual count, if the record has as many
  fields as the header; \<open>csv.ErrFieldCount\<close> if it lexes with another number of fields;
  and the reader's parse error if it does not lex. (A lexed record has at least one
  field, hence the condition on the header.)
\<close>

theorem short_row_fails:
  assumes "fs (path ci) = Some (h # pre @ l # rest)"
    and "l = Record r \<or> l = Malformed r"
    and "length r \<le> 2"
  shows "(\<exists>e. fst (ImportDomainData picks verbose fs ci) = (None, Some e))
    \<and> (h = Record header \<and> header \<noteq> [] \<and> list_all (validRow (length header)) pre \<longrightarrow>
         fst (ImportDomainData picks verbose fs ci)
           = (None, Some (case l of
                            Record x \<Rightarrow>
                              if length r = length header
                              then InsufficientColumns 3 (length r) else ErrFieldCount
                          | Malformed x \<Rightarrow> ParseError)))"
proof
  have bad: "l = Record r \<and> length r \<le> emailColumnIndex \<or> l = Malformed r"
    using assms(2,3) by (auto simp: emailColumnIndex_def)
  show "\<exists>e. fst (ImportDomainData picks verbose fs ci) = (None, Some e)"
  proof (cases h)
    case (Malformed a)
    then show ?thesis using assms(1) by (simp add: ImportDomainData_def Read_def NewReader_def slogError_def)
  next
    case (Record a)
    let ?rd = "\<lparr>FieldsPerRecord = int (length a), input = pre @ l # rest\<rparr>"
    have "input ?rd = pre @ l # rest" by simp
    from importRows_bad_anywhere [OF this bad, of picks verbose "[]" 0 "[]"]
    show ?thesis
      using ImportDomainData_header [of fs ci a "pre @ l # rest" picks verbose] assms(1) Record
      by simp
  qed
next
  show "h = Record header \<and> header \<noteq> [] \<and> list_all (validRow (length header)) pre \<longrightarrow>
         fst (ImportDomainData picks verbose fs ci)
           = (None, Some (case l of
                            Record x \<Rightarrow>
                              if length r = length header
                              then InsufficientColumns 3 (length r) else ErrFieldCount
                          | Malformed x \<Rightarrow> ParseError))"
  proof
    assume a: "h = Record header \<and> header \<noteq> [] \<and> list_all (validRow (length header)) pre"
    let ?rd = "\<lparr>FieldsPerRecord = int (length header), input = pre @ l # rest\<rparr>"
    have imp: "ImportDomainData picks verbose fs ci = importRows picks verbose ?rd [] 0 []"
      using ImportDomainData_header [of fs ci header "pre @ l # rest" picks verbose] assms(1) a
      by simp
    from assms(2) show "fst (ImportDomainData picks verbose fs ci)
           = (None, Some (case l of
                            Record x \<Rightarrow>
                              if length r = length header
                              then InsufficientColumns 3 (length r) else ErrFieldCount
                          | Malformed x \<Rightarrow> ParseError))"
    proof
      assume l: "l = Record r"
      have "fst (importRows picks verbose ?rd [] 0 [])
        = (None, Some (if length r = length header
                       then InsufficientColumns (emailColumnIndex + 1) (length r) else ErrFieldCount))"
        using a assms(3) l
        by (intro importRows_short_row [where good = pre and rest = rest])
          (simp_all add: emailColumnIndex_def)
      then show ?thesis using l by (simp add: imp emailColumnIndex_def)
    next
      assume l: "l = Malformed r"
      have "fst (importRows picks verbose ?rd [] 0 []) = (None, Some ParseError)"
        using a l by (intro importRows_malformed_row [where good = pre and rest = rest and n = "length header"])
          simp_all
      then show ?thesis using l by (simp add: imp)
    qed
  qed
qed

theorem short_row_fails_witness:
  "[''customers.csv'' \<mapsto> [Record [''name'', ''surname''], Record [''John'', ''Doe''], janeRow]] (path customers)
     = Some (Record [''name'', ''surname''] # [] @ Record [''John'', ''Doe''] # [janeRow])
   \<and> (Record [''John'', ''Doe''] = Record [''John'', ''Doe'']
        \<or> Record [''John'', ''Doe''] = Malformed [''John'', ''Doe''])
   \<and> length [''John'', ''Doe''] \<le> 2
   \<and> Record [''name'', ''surname''] = Record [''name'', ''surname'']
   \<and> [''name'', ''surname''] \<noteq> []
   \<and> list_all (validRow (length [''name'', ''surname''])) []
   \<and> fst (ImportDomainData [] True
        [''customers.csv'' \<mapsto> [Record [''name'', ''surname''], Record [''John'', ''Doe''], janeRow]] customers)
     = (None, Some (InsufficientColumns 3 2))"
proof -
  let ?fs = "[''customers.csv'' \<mapsto> [Record [''name'', ''surname''], Record [''John'', ''Doe''], janeRow]]"
  have a: "?fs (path customers)
     = Some (Record [''name'', ''surname''] # [] @ Record [''John'', ''Doe''] # [janeRow])"
    by (simp add: path_customers)
  have b: "Record [''John'', ''Doe''] = Record [''John'', ''Doe'']
        \<or> Record [''John'', ''Doe''] = Malformed [''John'', ''Doe'']" by simp
  have c: "length [''John'', ''Doe''] \<le> 2" by simp
  have d: "Record [''name'', ''surname''] = Record [''name'', ''surname'']
    \<and> [''name'', ''surname''] \<noteq> [] \<and> list_all (validRow (length [''name'', ''surname''])) []"
    by simp
  from short_row_fails [of ?fs customers "Record [''name'', ''surname'']" "[]"
      "Record [''John'', ''Doe'']" "[janeRow]" "[''John'', ''Doe'']" "[]" True "[''name'', ''surname'']"]
    a b c d
  show ?thesis by simp
qed

text \<open>
  Claim C4. Whenever \<open>ImportDomainData\<close> returns a slice, the slice is sorted in
  ascending byte-wise lexicographic order of \<open>Domain\<close> and no two entries have the same
  \<open>Domain\<close>.
\<close>

theorem import_sorted_distinct:
  assumes "fst (ImportDomainData picks verbose fs ci) = (Some res, e)"
  shows "sorted (map Domain res) \<and> distinct (map Domain res)"
proof (cases "fs (path ci)")
  case None
  then show ?thesis using assms by (simp add: ImportDomainData_def)
next
  case (Some src)
  obtain line readErr rd where rd: "Read (NewReader src) = ((line, readErr), rd)"
    by (metis prod.exhaust)
  show ?thesis
  proof (cases readErr)
    case (Some err)
    then show ?thesis using assms rd \<open>fs (path ci) = Some src\<close>
      by (simp add: ImportDomainData_def)
  next
    case None
    then have "fst (importRows picks verbose rd [] 0 []) = (Some res, e)"
      using assms rd \<open>fs (path ci) = Some src\<close> by (simp add: ImportDomainData_def)
    then show ?thesis by (intro importRows_sorted [of "[]"]) simp_all
  qed
qed

lemma example_import:
  "fst (ImportDomainData [1, 1] True exampleFiles customers) = (Some exampleResult, None)"
  by code_simp

theorem import_sorted_distinct_witness:
  "fst (ImportDomainData [1, 1] True exampleFiles customers) = (Some exampleResult, None)
   \<and> sorted (map Domain exampleResult) \<and> distinct (map Domain exampleResult)"
  using import_sorted_distinct [of "[1, 1]" True exampleFiles customers exampleResult None]
    example_import
  by simp

text \<open>
  Claim C5. For a source made of a header and data rows that are all valid, the import
  succeeds and the \<open>CustomerQuantity\<close> counts of its result add up to the number of data
  rows. The counts are \<open>uint64\<close>: the sum is taken of their values as natural numbers,
  for sources of fewer than \<open>2 ^ 64\<close> rows, below which no count can wrap.
\<close>

theorem import_counts_rows:
  assumes "fs (path ci) = Some (Record header # rows)"
    and "list_all (validRow (length header)) rows"
    and "length rows < 2 ^ 64"
  shows "\<exists>res. fst (ImportDomainData picks verbose fs ci) = (Some res, None)
    \<and> sum_list (map (unat \<circ> CustomerQuantity) res) = length rows"
proof -
  let ?rd = "\<lparr>FieldsPerRecord = int (length header), input = rows\<rparr>"
  have "\<exists>res. fst (importRows picks verbose ?rd [] 0 []) = (Some res, None)
       \<and> sum_list (map (unat \<circ> CustomerQuantity) res)
           = sum_list (map (unat \<circ> snd) ([] :: domainMap)) + length (input ?rd)"
    using assms(2,3) by (intro importRows_wellFormed [where n = "length header"]) simp_all
  then show ?thesis
    using ImportDomainData_header [of fs ci header rows picks verbose] assms(1) by simp
qed

lemma example_rows_valid:
  "list_all (validRow (length standardHeader)) [janeRow, bobRow, annRow]"
  by code_simp

theorem import_counts_rows_witness:
  "exampleFiles (path customers) = Some (Record standardHeader # [janeRow, bobRow, annRow])
   \<and> list_all (validRow (length standardHeader)) [janeRow, bobRow, annRow]
   \<and> length [janeRow, bobRow, annRow] < (2 :: nat) ^ 64
   \<and> fst (ImportDomainData [1, 1] True exampleFiles customers) = (Some exampleResult, None)
   \<and> sum_list (map (unat \<circ> CustomerQuantity) exampleResult) = length [janeRow, bobRow, annRow]"
proof -
  have a: "exampleFiles (path customers) = Some (Record standardHeader # [janeRow, bobRow, annRow])"
    by (simp add: exampleFiles_def path_customers)
  have c: "length [janeRow, bobRow, annRow] < (2 :: nat) ^ 64" by simp
  from import_counts_rows [of exampleFiles customers standardHeader "[janeRow, bobRow, annRow]"
      "[1, 1]" True] a example_rows_valid c
  obtain res where "fst (ImportDomainData [1, 1] True exampleFiles customers) = (Some res, None)"
    and "sum_list (map (unat \<circ> CustomerQuantity) res) = length [janeRow, bobRow, annRow]"
    by blast
  then show ?thesis using a example_rows_valid c example_import by simp
qed

text \<open>
  Claim C6. Whenever \<open>ImportDomainData\<close> returns an error, whichever it is, the slice
  it returns is \<open>nil\<close>: nothing of what was accumulated before the failure is returned.
\<close>

theorem import_all_or_nothing:
  "snd (fst (ImportDomainData picks verbose fs ci)) \<noteq> None \<Longrightarrow>
     fst (fst (ImportDomainData picks verbose fs ci)) = None"
proof (cases "fs (path ci)")
  case None
  then show ?thesis by (simp add: ImportDomainData_def)
next
  case (Some src)
  assume err: "snd (fst (ImportDomainData picks verbose fs ci)) \<noteq> None"
  obtain line readErr rd where rd: "Read (NewReader src) = ((line, readErr), rd)"
    by (metis prod.exhaust)
  show ?thesis
  proof (cases readErr)
    case (Some e)
    then show ?thesis using rd \<open>fs (path ci) = Some src\<close> by (simp add: ImportDomainData_def)
  next
    case None
    then have eq: "ImportDomainData picks verbose fs ci = importRows picks verbose rd [] 0 []"
      using rd \<open>fs (path ci) = Some src\<close> by (simp add: ImportDomainData_def)
    from importRows_shape [of picks verbose rd "[]" 0 "[]"] err show ?thesis
      unfolding eq by auto
  qed
qed

theorem import_all_or_nothing_witness:
  "snd (fst (ImportDomainData [] False
        [''customers.csv'' \<mapsto> [Record standardHeader, janeRow,
           Record [''Bob'', ''Lee'', ''bob@example@com'', ''M'', ''2.2.2.2'']]] customers))
     = Some (InvalidEmailInCSV MultipleSeparators)
   \<and> fst (fst (ImportDomainData [] False
        [''customers.csv'' \<mapsto> [Record standardHeader, janeRow,
           Record [''Bob'', ''Lee'', ''bob@example@com'', ''M'', ''2.2.2.2'']]] customers))
     = None"
proof -
  let ?fs = "[''customers.csv'' \<mapsto> [Record standardHeader, janeRow,
           Record [''Bob'', ''Lee'', ''bob@example@com'', ''M'', ''2.2.2.2'']]]"
  have a: "snd (fst (ImportDomainData [] False ?fs customers))
     = Some (InvalidEmailInCSV MultipleSeparators)"
    by code_simp
  then have "snd (fst (ImportDomainData [] False ?fs customers)) \<noteq> None" by simp
  from import_all_or_nothing [OF this] a show ?thesis by simp
qed

text \<open>
  Claim C7 as stated, that two sources differing only in their header record give the
  same outcome, does not hold: the reader takes the number of fields of the header as
  the number every later record must have. The same data row is imported under the
  five-column header and rejected with \<open>csv.ErrFieldCount\<close> under a three-column one.
\<close>

theorem header_width_counterexample:
  "fst (ImportDomainData [] False [''customers.csv'' \<mapsto> [Record standardHeader, janeRow]] customers)
     = (Some [\<lparr>Domain = ''example.com'', CustomerQuantity = 1\<rparr>], None)
   \<and> fst (ImportDomainData [] False
          [''customers.csv'' \<mapsto> [Record [''first_name'', ''last_name'', ''email''], janeRow]] customers)
     = (None, Some ErrFieldCount)"
  by code_simp

text \<open>
  Claim C7, amended. The fields of the header are never inspected, only their number:
  two sources that differ only in their header records, both readable and with the same
  number of fields, give the same outcome: the same slice, or an error of the same kind.
\<close>

theorem header_same_width:
  assumes "length header = length header'"
  shows "fst (ImportDomainData picks verbose (fs(path ci \<mapsto> Record header # rows)) ci)
    = fst (ImportDomainData picks verbose (fs(path ci \<mapsto> Record header' # rows)) ci)"
  using assms
    ImportDomainData_header [of "fs(path ci \<mapsto> Record header # rows)" ci header rows picks verbose]
    ImportDomainData_header [of "fs(path ci \<mapsto> Record header' # rows)" ci header' rows picks verbose]
  by simp

theorem header_same_width_witness:
  "length standardHeader = length [''a'', ''b'', '''', ''d'', ''e'']
   \<and> fst (ImportDomainData [] True
         (Map.empty(path customers \<mapsto> Record standardHeader # [janeRow, bobRow, annRow])) customers)
     = fst (ImportDomainData [] True
         (Map.empty(path customers \<mapsto> Record [''a'', ''b'', '''', ''d'', ''e''] # [janeRow, bobRow, annRow]))
         customers)"
proof -
  have a: "length standardHeader = length [''a'', ''b'', '''', ''d'', ''e'']"
    by (simp add: standardHeader_def)
  from header_same_width [OF a, of "[]" True Map.empty customers "[janeRow, bobRow, annRow]"] a
  show ?thesis by simp
qed

text \<open>
  Claim C8. \<open>validateEmail\<close> is a function of its argument alone, and what
  \<open>ImportDomainData\<close> returns for a file system and a path depends neither on the order
  in which the map is iterated (\<open>picks\<close>) nor on whether Info records are logged
  (\<open>verbose\<close>).
\<close>

theorem import_deterministic:
  "(email = email' \<longrightarrow> validateEmail email = validateEmail email')
   \<and> fst (ImportDomainData picks verbose fs ci) = fst (ImportDomainData picks' verbose' fs ci)"
proof
  show "email = email' \<longrightarrow> validateEmail email = validateEmail email'" by simp
next
  show "fst (ImportDomainData picks verbose fs ci) = fst (ImportDomainData picks' verbose' fs ci)"
  proof (cases "fs (path ci)")
    case None
    then show ?thesis by (simp add: ImportDomainData_def)
  next
    case (Some src)
    obtain line readErr rd where rd: "Read (NewReader src) = ((line, readErr), rd)"
      by (metis prod.exhaust)
    show ?thesis
    proof (cases readErr)
      case (Some e)
      then show ?thesis using rd \<open>fs (path ci) = Some src\<close> by (simp add: ImportDomainData_def)
    next
      case None
      then have "ImportDomainData ps vb fs ci = importRows ps vb rd [] 0 []" for ps vb
        using rd \<open>fs (path ci) = Some src\<close> by (simp add: ImportDomainData_def)
      then show ?thesis using importRows_picks [of "[]" picks verbose rd 0 "[]" picks' verbose' "[]"]
        by simp
    qed
  qed
qed

theorem import_deterministic_witness:
  "validateEmail ''user@example.com'' = validateEmail ''user@example.com''
   \<and> fst (ImportDomainData [0, 0] False exampleFiles customers)
     = fst (ImportDomainData [1, 1] True exampleFiles customers)
   \<and> fst (ImportDomainData [1, 1] True exampleFiles customers) = (Some exampleResult, None)"
  using import_deterministic [of "''user@example.com''" "''user@example.com''"
      "[0, 0]" False exampleFiles customers "[1, 1]" True] example_import
  by simp

text \<open>
  Claim C9. For a source that holds a readable header and no data row,
  \<open>ImportDomainData\<close> succeeds and returns the empty slice (not \<open>nil\<close>) and no error.
\<close>

theorem import_header_only:
  assumes "fs (path ci) = Some [Record header]"
  shows "fst (ImportDomainData picks verbose fs ci) = (Some [], None)"
  using ImportDomainData_header [of fs ci header "[]" picks verbose] assms
  by (simp add: importRows_Nil finish_eq)

theorem import_header_only_witness:
  "[''customers.csv'' \<mapsto> [Record standardHeader]] (path customers) = Some [Record standardHeader]
   \<and> fst (ImportDomainData [] True [''customers.csv'' \<mapsto> [Record standardHeader]] customers)
     = (Some [], None)"
proof -
  have a: "[''customers.csv'' \<mapsto> [Record standardHeader]] (path customers) = Some [Record standardHeader]"
    by (simp add: path_customers)
  from import_header_only [of "[''customers.csv'' \<mapsto> [Record standardHeader]]" customers
      standardHeader "[]" True] a
  show ?thesis by simp
qed

text \<open>
  Claim C10. \<open>ExportData\<close> called with the \<open>nil\<close> slice returns the error
  "provided data is empty (nil)" and leaves the file system as it was: the output file
  is neither created nor truncated, and nothing is logged.
\<close>

theorem export_nil_no_effect:
  "ExportData verbose fs ex None = (Some NilData, fs, [])"
  by (simp add: ExportData_def)

theorem export_nil_no_effect_witness:
  "ExportData True exampleDisk (NewCustomerExporter ''out.csv'') None = (Some NilData, exampleDisk, [])
   \<and> files exampleDisk ''out.csv'' = Some ''kept''"
  using export_nil_no_effect [of True exampleDisk "NewCustomerExporter ''out.csv''"]
  by (simp add: exampleDisk_def)

lemma export_writes_file:
  "creatable fs (outputPath ex) \<Longrightarrow>
     ExportData verbose fs ex (Some rows)
       = (None, fs\<lparr>files := (files fs)(outputPath ex \<mapsto> exportCsv rows)\<rparr>,
          slogInfo verbose
            (slogInfo verbose [] ''starting export''
               [(''file'', Str (outputPath ex)), (''records'', Num (length rows))])
            ''export written successfully'' [(''file'', Str (outputPath ex))])"
  by (simp add: ExportData_def osCreate_def Let_def)

lemma export_empty_slice_truncates:
  "files (fst (snd (ExportData True exampleDisk (NewCustomerExporter ''out.csv'') (Some [])))) ''out.csv''
     = Some (''domain,number_of_customers'' @ [CHR 0x0A])"
  by code_simp

section \<open>The model against the repository tests\<close>

text \<open>Every order of the entries is the order of some \<open>picks\<close>.\<close>

lemma rangeMap_complete: "mset ys = mset xs \<Longrightarrow> \<exists>ps. rangeMap ps xs = ys"
proof (induction ys arbitrary: xs)
  case Nil
  then show ?case by simp
next
  case (Cons y ys)
  then have "y \<in> set xs" by (metis list.set_intros(1) mset_eq_setD)
  then obtain i where i: "i < length xs" "xs ! i = y" by (auto simp: in_set_conv_nth)
  let ?xs' = "take i xs @ drop (Suc i) xs"
  have "mset xs = mset ?xs' + {#y#}"
    using id_take_nth_drop [OF i(1)] i(2) by (metis add_mset_add_single mset.simps(2) mset_append union_mset_add_mset_right)
  then have "mset ys = mset ?xs'" using Cons.prems by simp
  from Cons.IH [OF this] obtain ps where ps: "rangeMap ps ?xs' = ys" by blast
  obtain x xs0 where xs: "xs = x # xs0" using i(1) by (cases xs) auto
  have "rangeMap (i # ps) xs = y # ys"
    using i ps unfolding xs by (simp add: Let_def)
  then show ?case by blast
qed

text \<open>The table of \<open>TestValidateEmail\<close>.\<close>

lemma validateEmail_tests:
  "validateEmail ''user@example.com'' = (''example.com'', None)"
  "validateEmail ''user@mail.example.com'' = (''mail.example.com'', None)"
  "validateEmail ''user123@example123.com'' = (''example123.com'', None)"
  "validateEmail ''  user@example.com  '' = (''example.com'', None)"
  "validateEmail '''' = ([], Some EmailEmpty)"
  "validateEmail ''   '' = ([], Some EmailEmpty)"
  "validateEmail ''userexample.com'' = ([], Some MissingSeparator)"
  "validateEmail ''@example.com'' = ([], Some EmptyLocalPart)"
  "validateEmail ''   @example.com'' = ([], Some EmptyLocalPart)"
  "validateEmail ''user@'' = ([], Some EmptyDomain)"
  "validateEmail ''user@   '' = ([], Some EmptyDomain)"
  "validateEmail ''user@domain@extra.com'' = ([], Some MultipleSeparators)"
  "validateEmail ''@'' = ([], Some EmptyLocalPart)"
  by code_simp+

text \<open>The cases of \<open>TestImportDomainData_EdgeCases\<close>, and the concrete scenario of three rows.\<close>

lemma ImportDomainData_tests:
  "fst (ImportDomainData [] False
     [''test.csv'' \<mapsto> [Record standardHeader, Record [''John'', ''Doe'']]]
     (NewCustomerImporter ''test.csv'')) = (None, Some ErrFieldCount)"
  "fst (ImportDomainData [] False
     [''test.csv'' \<mapsto> [Record standardHeader,
        Record [''John'', ''Doe'', ''invalidemailexample.com'', ''Male'', ''192.168.1.1'']]]
     (NewCustomerImporter ''test.csv'')) = (None, Some (InvalidEmailInCSV MissingSeparator))"
  "fst (ImportDomainData [] False
     [''test.csv'' \<mapsto> [Record standardHeader,
        Record [''John'', ''Doe'', ''user@'', ''Male'', ''192.168.1.1'']]]
     (NewCustomerImporter ''test.csv'')) = (None, Some (InvalidEmailInCSV EmptyDomain))"
  "fst (ImportDomainData [] False
     [''test.csv'' \<mapsto> [Record standardHeader,
        Record [''John'', ''Doe'', ''user@domain@extra.com'', ''Male'', ''192.168.1.1'']]]
     (NewCustomerImporter ''test.csv'')) = (None, Some (InvalidEmailInCSV MultipleSeparators))"
  "fst (ImportDomainData [] False Map.empty (NewCustomerImporter '''')) = (None, Some OpenError)"
  by code_simp+

end
